theory Spec2Isabelle
  imports Complex_Main "HOL-Library.Signed_Division"
begin

section \<open>The bounded queue of threads.c\<close>

text \<open>
  A \<^verbatim>\<open>void*\<close> is an address; address 0 is the null pointer. The queue never
  dereferences the pointers it stores.
\<close>

type_synonym ptr = nat

abbreviation NULL :: ptr where
  "NULL \<equiv> 0"

type_synonym tid = nat

text \<open>
  \<^verbatim>\<open>ThreadSafeQueue\<close> (lines 23-32). The four \<^verbatim>\<open>int\<close> fields are mathematical
  integers here: the code only ever computes \<open>tail + 1\<close>, \<open>head + 1\<close>, \<open>count + 1\<close> and
  \<open>count - 1\<close>, and lemma \<open>queue_ok_no_overflow\<close> below shows that these stay within
  \<open>0 .. capacity\<close> and so inside the range of a C \<^verbatim>\<open>int\<close>. The block \<open>items\<close> points to
  is the list of its slots. The mutex is its owner (if any); a condition variable is the
  list of the threads blocked on it.
\<close>

record ThreadSafeQueue =
  items :: "ptr list"
  head :: int
  tail :: int
  count :: int
  capacity :: int
  lock :: "tid option"
  not_empty :: "tid list"
  not_full :: "tid list"

text \<open>
  What \<^verbatim>\<open>queue_create\<close> (lines 92-136) gets from its environment: whether each
  allocation and initialisation succeeds, and the (uninitialised) contents of the block
  \<^verbatim>\<open>malloc(capacity * sizeof(void* ))\<close> returns.
\<close>

record create_env =
  queue_block_ok :: bool
  items_block :: "ptr list option"
  lock_init_ok :: bool
  not_empty_init_ok :: bool
  not_full_init_ok :: bool

definition queue_create :: "create_env \<Rightarrow> int \<Rightarrow> ThreadSafeQueue option" where
  "queue_create env cap =
     (if \<not> queue_block_ok env then None
      else case items_block env of
        None \<Rightarrow> None
      | Some mem \<Rightarrow>
          if \<not> lock_init_ok env then None
          else if \<not> not_empty_init_ok env then None
          else if \<not> not_full_init_ok env then None
          else Some \<lparr>items = mem, head = 0, tail = 0, count = 0, capacity = cap,
                      lock = None, not_empty = [], not_full = []\<rparr>)"

definition queue_is_empty :: "ThreadSafeQueue \<Rightarrow> bool" where
  "queue_is_empty q \<longleftrightarrow> count q = 0"

definition queue_is_full :: "ThreadSafeQueue \<Rightarrow> bool" where
  "queue_is_full q \<longleftrightarrow> count q = capacity q"

text \<open>
  Lines 165-167 of \<^verbatim>\<open>queue_enqueue\<close>: store at \<open>tail\<close>, advance \<open>tail\<close>, count up.
  C's \<^verbatim>\<open>%\<close> on \<^verbatim>\<open>int\<close> truncates towards zero: it is \<open>smod\<close>.
\<close>

definition enqueue_store :: "ThreadSafeQueue \<Rightarrow> ptr \<Rightarrow> ThreadSafeQueue" where
  "enqueue_store q item =
     q\<lparr>items := (items q)[nat (tail q) := item],
       tail := (tail q + 1) smod capacity q,
       count := count q + 1\<rparr>"

text \<open>
  Lines 191-194 of \<^verbatim>\<open>queue_dequeue\<close>: read the slot at \<open>head\<close>, clear it, advance
  \<open>head\<close>, count down. The result is the item read and the queue left behind.
\<close>

definition dequeue_take :: "ThreadSafeQueue \<Rightarrow> ptr \<times> ThreadSafeQueue" where
  "dequeue_take q =
     (items q ! nat (head q),
      q\<lparr>items := (items q)[nat (head q) := NULL],
        head := (head q + 1) smod capacity q,
        count := count q - 1\<rparr>)"

text \<open>
  The data-model invariant of the ring buffer. An index outside the block would be
  undefined behaviour in C; under this invariant \<open>head\<close> and \<open>tail\<close> are inside it.
\<close>

definition queue_ok :: "ThreadSafeQueue \<Rightarrow> bool" where
  "queue_ok q \<longleftrightarrow>
     0 < capacity q \<and> int (length (items q)) = capacity q \<and>
     0 \<le> count q \<and> count q \<le> capacity q \<and>
     0 \<le> head q \<and> head q < capacity q \<and>
     0 \<le> tail q \<and> tail q < capacity q \<and>
     tail q = (head q + count q) mod capacity q"

text \<open>
  The slots from \<open>head\<close> on, \<open>count\<close> of them, going round the end of the block,
  and their contents: the items waiting in the queue, oldest first.
\<close>

definition live_slots :: "ThreadSafeQueue \<Rightarrow> nat list" where
  "live_slots q = map (\<lambda>i. nat ((head q + int i) mod capacity q)) [0..<nat (count q)]"

definition pending :: "ThreadSafeQueue \<Rightarrow> ptr list" where
  "pending q = map (\<lambda>i. items q ! i) (live_slots q)"


section \<open>Threads calling the queue\<close>

text \<open>
  The blocking operations are modelled as a small-step machine: every thread is at a
  point of \<^verbatim>\<open>queue_enqueue\<close> or \<^verbatim>\<open>queue_dequeue\<close>, and a scheduler picks the thread
  that takes the next step. A step is the code between two points where the thread can
  be suspended or where the unprotected flag \<^verbatim>\<open>shutdown_requested\<close> is read.
\<close>

datatype op = Enqueue ptr | Dequeue

datatype result = Enq_result int | Deq_result ptr

text \<open>
  Points of \<^verbatim>\<open>queue_enqueue\<close>:
  \<open>E_lock\<close> before \<^verbatim>\<open>pthread_mutex_lock\<close> (line 154);
  \<open>E_loop\<close> at the loop test (157);
  \<open>E_wait\<close> suspended inside \<^verbatim>\<open>pthread_cond_wait\<close> (158);
  \<open>E_woken\<close> back from the wait, before the flag is read (159);
  \<open>E_store\<close> before lines 165-167;
  \<open>E_signal\<close> before \<^verbatim>\<open>pthread_cond_signal\<close> (170);
  \<open>E_unlock\<close> before the unlock and \<^verbatim>\<open>return 0\<close> (171-173).
\<close>

datatype enq_pc = E_lock | E_loop | E_wait | E_woken | E_store | E_signal | E_unlock

text \<open>
  Points of \<^verbatim>\<open>queue_dequeue\<close>:
  \<open>D_lock\<close> before \<^verbatim>\<open>pthread_mutex_lock\<close> (line 180);
  \<open>D_loop\<close> at the loop test (183);
  \<open>D_check\<close> inside the loop, before the flag is read (184);
  \<open>D_wait\<close> suspended inside \<^verbatim>\<open>pthread_cond_wait\<close> (188);
  \<open>D_take\<close> before lines 191-194;
  \<open>D_signal\<close> before \<^verbatim>\<open>pthread_cond_signal\<close> (197);
  \<open>D_unlock\<close> before the unlock and \<^verbatim>\<open>return item\<close> (198-200).
\<close>

datatype deq_pc = D_lock | D_loop | D_check | D_wait | D_take | D_signal | D_unlock

text \<open>
  A thread is outside the queue's functions (\<open>Idle\<close>), inside one of them, with the
  argument \<open>item\<close> of \<^verbatim>\<open>queue_enqueue\<close> or the local variable \<open>item\<close> of
  \<^verbatim>\<open>queue_dequeue\<close>, or back from a call with its result.
\<close>

datatype thread =
    Idle
  | In_enqueue enq_pc ptr
  | In_dequeue deq_pc ptr
  | Returned result

record state =
  queue :: ThreadSafeQueue
  shutdown_requested :: int
  threads :: "tid \<Rightarrow> thread"
  stdout :: "string list"

definition goto :: "tid \<Rightarrow> thread \<Rightarrow> state \<Rightarrow> state" where
  "goto t th s = s\<lparr>threads := (threads s)(t := th)\<rparr>"

text \<open>
  \<^verbatim>\<open>pthread_cond_signal\<close> unblocks at least one of the threads blocked on the
  condition variable, if any is blocked. Which ones is the scheduler's choice \<open>woken\<close>;
  the result is the list of the threads still blocked, or \<open>None\<close> when the choice is
  not one the call allows.
\<close>

definition cond_signal :: "tid list \<Rightarrow> tid list \<Rightarrow> tid list option" where
  "cond_signal woken waiters =
     (if waiters = [] then (if woken = [] then Some [] else None)
      else if woken \<noteq> [] \<and> list_all (\<lambda>t. t \<in> set waiters) woken
        then Some (filter (\<lambda>t. t \<notin> set woken) waiters)
      else None)"

text \<open>
  One step of thread \<open>t\<close> inside \<^verbatim>\<open>queue_enqueue(queue, item)\<close>, lines 153-174.
  \<open>None\<close>: the thread cannot move (the mutex is taken, or nobody has woken it).
\<close>

definition queue_enqueue :: "tid \<Rightarrow> tid list \<Rightarrow> enq_pc \<Rightarrow> ptr \<Rightarrow> state \<Rightarrow> state option" where
  "queue_enqueue t woken pc item s =
     (let q = queue s in
      case pc of
        E_lock \<Rightarrow>
          if lock q = None
          then Some (goto t (In_enqueue E_loop item) (s\<lparr>queue := q\<lparr>lock := Some t\<rparr>\<rparr>))
          else None
      | E_loop \<Rightarrow>
          if queue_is_full q
          then Some (goto t (In_enqueue E_wait item)
                 (s\<lparr>queue := q\<lparr>lock := None, not_full := not_full q @ [t]\<rparr>\<rparr>))
          else Some (goto t (In_enqueue E_store item) s)
      | E_wait \<Rightarrow>
          if t \<notin> set (not_full q) \<and> lock q = None
          then Some (goto t (In_enqueue E_woken item) (s\<lparr>queue := q\<lparr>lock := Some t\<rparr>\<rparr>))
          else None
      | E_woken \<Rightarrow>
          if shutdown_requested s \<noteq> 0
          then Some (goto t (Returned (Enq_result (- 1))) (s\<lparr>queue := q\<lparr>lock := None\<rparr>\<rparr>))
          else Some (goto t (In_enqueue E_loop item) s)
      | E_store \<Rightarrow>
          Some (goto t (In_enqueue E_signal item) (s\<lparr>queue := enqueue_store q item\<rparr>))
      | E_signal \<Rightarrow>
          (case cond_signal woken (not_empty q) of
             None \<Rightarrow> None
           | Some rest \<Rightarrow>
               Some (goto t (In_enqueue E_unlock item) (s\<lparr>queue := q\<lparr>not_empty := rest\<rparr>\<rparr>)))
      | E_unlock \<Rightarrow>
          Some (goto t (Returned (Enq_result 0)) (s\<lparr>queue := q\<lparr>lock := None\<rparr>\<rparr>)))"

text \<open>
  One step of thread \<open>t\<close> inside \<^verbatim>\<open>queue_dequeue(queue)\<close>, lines 177-201.
\<close>

definition queue_dequeue :: "tid \<Rightarrow> tid list \<Rightarrow> deq_pc \<Rightarrow> ptr \<Rightarrow> state \<Rightarrow> state option" where
  "queue_dequeue t woken pc item s =
     (let q = queue s in
      case pc of
        D_lock \<Rightarrow>
          if lock q = None
          then Some (goto t (In_dequeue D_loop item) (s\<lparr>queue := q\<lparr>lock := Some t\<rparr>\<rparr>))
          else None
      | D_loop \<Rightarrow>
          if queue_is_empty q
          then Some (goto t (In_dequeue D_check item) s)
          else Some (goto t (In_dequeue D_take item) s)
      | D_check \<Rightarrow>
          if shutdown_requested s \<noteq> 0
          then Some (goto t (Returned (Deq_result NULL)) (s\<lparr>queue := q\<lparr>lock := None\<rparr>\<rparr>))
          else Some (goto t (In_dequeue D_wait item)
                 (s\<lparr>queue := q\<lparr>lock := None, not_empty := not_empty q @ [t]\<rparr>\<rparr>))
      | D_wait \<Rightarrow>
          if t \<notin> set (not_empty q) \<and> lock q = None
          then Some (goto t (In_dequeue D_loop item) (s\<lparr>queue := q\<lparr>lock := Some t\<rparr>\<rparr>))
          else None
      | D_take \<Rightarrow>
          (case dequeue_take q of
             (x, q') \<Rightarrow> Some (goto t (In_dequeue D_signal x) (s\<lparr>queue := q'\<rparr>)))
      | D_signal \<Rightarrow>
          (case cond_signal woken (not_full q) of
             None \<Rightarrow> None
           | Some rest \<Rightarrow>
               Some (goto t (In_dequeue D_unlock item) (s\<lparr>queue := q\<lparr>not_full := rest\<rparr>\<rparr>)))
      | D_unlock \<Rightarrow>
          Some (goto t (Returned (Deq_result item)) (s\<lparr>queue := q\<lparr>lock := None\<rparr>\<rparr>)))"

subsection \<open>The shutdown flag\<close>

text \<open>
  \<^verbatim>\<open>signal_handler\<close> (lines 539-544) as the list of the actions it performs, in
  order. The signal numbers are those of \<^verbatim>\<open><signal.h>\<close> on Linux.
\<close>

definition SIGINT :: int where
  "SIGINT = 2"

definition SIGTERM :: int where
  "SIGTERM = 15"

datatype action = Printf string | Store_shutdown_requested int

definition shutdown_message :: string where
  "shutdown_message =
     CHR 0x0A # ''Shutdown signal received. Cleaning up...'' @ [CHR 0x0A]"

definition signal_handler_actions :: "int \<Rightarrow> action list" where
  "signal_handler_actions sig =
     (if sig = SIGINT \<or> sig = SIGTERM
      then [Printf shutdown_message, Store_shutdown_requested 1]
      else [])"

fun perform :: "action \<Rightarrow> state \<Rightarrow> state" where
  "perform (Printf msg) s = s\<lparr>stdout := stdout s @ [msg]\<rparr>"
| "perform (Store_shutdown_requested v) s = s\<lparr>shutdown_requested := v\<rparr>"

definition signal_handler :: "int \<Rightarrow> state \<Rightarrow> state" where
  "signal_handler sig s = fold perform (signal_handler_actions sig) s"

text \<open>
  Modelled from POSIX.1 (Signal Concepts), which \<^verbatim>\<open>signal_handler\<close> runs under:
  the functions a handler may call are those of the list of async-signal-safe
  functions, and \<^verbatim>\<open>printf\<close> is not on it; a handler may store to an object of type
  \<^verbatim>\<open>volatile sig_atomic_t\<close>.
\<close>

fun async_signal_safe :: "action \<Rightarrow> bool" where
  "async_signal_safe (Printf msg) = False"
| "async_signal_safe (Store_shutdown_requested v) = True"

subsection \<open>The scheduler\<close>

text \<open>
  What can happen next:
  \<^item> \<open>Call t op\<close>: thread \<open>t\<close>, outside the queue's functions, calls one;
  \<^item> \<open>Step t woken\<close>: thread \<open>t\<close> takes its next step (\<open>woken\<close> is used when the step
    is a \<^verbatim>\<open>pthread_cond_signal\<close>);
  \<^item> \<open>Signal sig\<close>: the process receives a signal and \<^verbatim>\<open>signal_handler\<close> runs;
  \<^item> \<open>Main_shutdown\<close>: \<^verbatim>\<open>main\<close> assigns \<^verbatim>\<open>shutdown_requested = 1\<close> (lines 615, 626);
  \<^item> \<open>Spurious t\<close>: thread \<open>t\<close> is woken from \<^verbatim>\<open>pthread_cond_wait\<close> without a
    signal, which POSIX allows and does not promise.
  Nothing in the program signals or broadcasts a condition variable but lines 170
  and 197.
\<close>

datatype event =
    Call tid op
  | Step tid "tid list"
  | Signal int
  | Main_shutdown
  | Spurious tid

definition start :: "op \<Rightarrow> thread" where
  "start opn = (case opn of Enqueue item \<Rightarrow> In_enqueue E_lock item | Dequeue \<Rightarrow> In_dequeue D_lock NULL)"

definition step :: "event \<Rightarrow> state \<Rightarrow> state option" where
  "step e s =
     (case e of
        Call t opn \<Rightarrow>
          (case threads s t of
             Idle \<Rightarrow> Some (goto t (start opn) s)
           | Returned r \<Rightarrow> Some (goto t (start opn) s)
           | In_enqueue pc item \<Rightarrow> None
           | In_dequeue pc item \<Rightarrow> None)
      | Step t woken \<Rightarrow>
          (case threads s t of
             Idle \<Rightarrow> None
           | Returned r \<Rightarrow> None
           | In_enqueue pc item \<Rightarrow> queue_enqueue t woken pc item s
           | In_dequeue pc item \<Rightarrow> queue_dequeue t woken pc item s)
      | Signal sig \<Rightarrow> Some (signal_handler sig s)
      | Main_shutdown \<Rightarrow> Some (s\<lparr>shutdown_requested := 1\<rparr>)
      | Spurious t \<Rightarrow>
          Some (s\<lparr>queue := (queue s)\<lparr>not_empty := removeAll t (not_empty (queue s)),
                                      not_full := removeAll t (not_full (queue s))\<rparr>\<rparr>))"

fun run :: "event list \<Rightarrow> state \<Rightarrow> state option" where
  "run [] s = Some s"
| "run (e # es) s = (case step e s of None \<Rightarrow> None | Some s' \<Rightarrow> run es s')"

text \<open>The program at start: the queue just created, the flag clear (line 20).\<close>

definition init :: "ThreadSafeQueue \<Rightarrow> state" where
  "init q = \<lparr>queue = q, shutdown_requested = 0, threads = (\<lambda>t. Idle), stdout = []\<rparr>"

text \<open>
  The item an event stores into the ring (the step at lines 165-167), and the item an
  event returns from \<^verbatim>\<open>queue_dequeue\<close> at line 200 (a call's return is placed at its
  unlock); then the same along a schedule, in the order of the stores and of the
  returns.
\<close>

definition stored :: "event \<Rightarrow> state \<Rightarrow> ptr list" where
  "stored e s =
     (case e of
        Step t woken \<Rightarrow>
          (case threads s t of In_enqueue E_store item \<Rightarrow> [item] | _ \<Rightarrow> [])
      | _ \<Rightarrow> [])"

definition handed_out :: "event \<Rightarrow> state \<Rightarrow> ptr list" where
  "handed_out e s =
     (case e of
        Step t woken \<Rightarrow>
          (case threads s t of In_dequeue D_unlock item \<Rightarrow> [item] | _ \<Rightarrow> [])
      | _ \<Rightarrow> [])"

fun enqueued :: "event list \<Rightarrow> state \<Rightarrow> ptr list" where
  "enqueued [] s = []"
| "enqueued (e # es) s =
     (case step e s of None \<Rightarrow> [] | Some s' \<Rightarrow> stored e s @ enqueued es s')"

fun dequeued :: "event list \<Rightarrow> state \<Rightarrow> ptr list" where
  "dequeued [] s = []"
| "dequeued (e # es) s =
     (case step e s of None \<Rightarrow> [] | Some s' \<Rightarrow> handed_out e s @ dequeued es s')"

text \<open>
  The item a dequeuer has taken out of the ring and not yet returned: it is in the
  local variable \<open>item\<close> of the thread that owns the mutex, between line 194 and the
  return.
\<close>

fun carried :: "thread \<Rightarrow> ptr list" where
  "carried (In_dequeue D_signal item) = [item]"
| "carried (In_dequeue D_unlock item) = [item]"
| "carried th = []"

definition in_flight :: "state \<Rightarrow> ptr list" where
  "in_flight s = (case lock (queue s) of None \<Rightarrow> [] | Some t \<Rightarrow> carried (threads s t))"

section \<open>The ring buffer\<close>

lemma smod_nonneg: "0 \<le> a \<Longrightarrow> 0 < b \<Longrightarrow> a smod b = a mod (b::int)"
  by (cases "a = 0") (simp_all add: signed_modulo_int_def)

lemma ring_distinct:
  assumes "0 < c" "0 \<le> h" "0 \<le> i" "i < j" "j < i + c"
  shows "(h + i) mod c \<noteq> (h + j) mod (c::int)"
proof
  assume "(h + i) mod c = (h + j) mod c"
  then have "c dvd (h + j) - (h + i)" by (metis mod_eq_dvd_iff)
  then have "c dvd j - i" by simp
  moreover have "0 < j - i" "j - i < c" using assms by auto
  ultimately show False using zdvd_not_zless by blast
qed

lemma queue_ok_enqueue:
  assumes "queue_ok q" "\<not> queue_is_full q"
  shows "queue_ok (enqueue_store q x)"
proof -
  have c: "0 < capacity q" "0 \<le> tail q" "tail q < capacity q" "count q < capacity q"
    "tail q = (head q + count q) mod capacity q"
    using assms by (auto simp: queue_ok_def queue_is_full_def)
  have t: "(tail q + 1) smod capacity q = (tail q + 1) mod capacity q"
    using c by (simp add: smod_nonneg)
  have "(tail q + 1) mod capacity q = (head q + (count q + 1)) mod capacity q"
    using c(5) by (metis add.assoc mod_add_left_eq)
  then show ?thesis using assms c t
    by (simp add: queue_ok_def enqueue_store_def queue_is_full_def)
qed

lemma pending_alt:
  "pending q = map (\<lambda>i. items q ! nat ((head q + int i) mod capacity q)) [0..<nat (count q)]"
  by (simp add: pending_def live_slots_def comp_def)

lemma length_pending: "length (pending q) = nat (count q)"
  by (simp add: pending_alt)

lemma pending_enqueue:
  assumes "queue_ok q" "\<not> queue_is_full q"
  shows "pending (enqueue_store q x) = pending q @ [x]"
proof -
  have c: "0 < capacity q" "0 \<le> tail q" "tail q < capacity q" "count q < capacity q"
    "tail q = (head q + count q) mod capacity q" "0 \<le> count q" "0 \<le> head q"
    "int (length (items q)) = capacity q"
    using assms by (auto simp: queue_ok_def queue_is_full_def)
  have n: "nat (count q + 1) = Suc (nat (count q))" using c by simp
  have old: "(items q)[nat (tail q) := x] ! nat ((head q + int i) mod capacity q)
           = items q ! nat ((head q + int i) mod capacity q)" if "i < nat (count q)" for i
  proof -
    have "(head q + int i) mod capacity q \<noteq> (head q + count q) mod capacity q"
      using that c by (intro ring_distinct) auto
    moreover have "0 \<le> (head q + int i) mod capacity q" using c by simp
    ultimately have "nat ((head q + int i) mod capacity q) \<noteq> nat (tail q)"
      using c by (simp add: nat_eq_iff)
    then show ?thesis by simp
  qed
  have lt: "nat (tail q) < length (items q)" using c by linarith
  have "nat ((head q + count q) mod capacity q) = nat (tail q)" using c(5) by simp
  then have new: "(items q)[nat (tail q) := x] ! nat ((head q + count q) mod capacity q) = x"
    using lt by simp
  show ?thesis
    using old new c(6) by (simp add: pending_alt enqueue_store_def n)
qed

lemma queue_ok_dequeue:
  assumes "queue_ok q" "\<not> queue_is_empty q"
  shows "queue_ok (snd (dequeue_take q))"
proof -
  have c: "0 < capacity q" "0 \<le> head q" "head q < capacity q" "0 < count q"
    "tail q = (head q + count q) mod capacity q"
    using assms by (auto simp: queue_ok_def queue_is_empty_def)
  have t: "(head q + 1) smod capacity q = (head q + 1) mod capacity q"
    using c by (simp add: smod_nonneg)
  have "((head q + 1) mod capacity q + (count q - 1)) mod capacity q
      = (head q + 1 + (count q - 1)) mod capacity q"
    by (rule mod_add_left_eq)
  then show ?thesis using assms c t
    by (simp add: queue_ok_def dequeue_take_def queue_is_empty_def)
qed

lemma pending_dequeue:
  assumes "queue_ok q" "\<not> queue_is_empty q"
  shows "pending q = fst (dequeue_take q) # pending (snd (dequeue_take q))"
proof -
  have c: "0 < capacity q" "0 \<le> head q" "head q < capacity q" "0 < count q"
    "count q \<le> capacity q" "int (length (items q)) = capacity q"
    using assms by (auto simp: queue_ok_def queue_is_empty_def)
  have t: "(head q + 1) smod capacity q = (head q + 1) mod capacity q"
    using c by (simp add: smod_nonneg)
  obtain n where n: "nat (count q) = Suc n" "nat (count q - 1) = n"
    using c by (cases "nat (count q)") auto
  have h0: "(head q + int 0) mod capacity q = head q" using c by simp
  have shift: "((head q + 1) mod capacity q + int i) mod capacity q
             = (head q + int (Suc i)) mod capacity q" for i
  proof -
    have "((head q + 1) mod capacity q + int i) mod capacity q
        = (head q + 1 + int i) mod capacity q"
      by (rule mod_add_left_eq)
    then show ?thesis by (simp add: add.assoc)
  qed
  have keep: "(items q)[nat (head q) := NULL] ! nat ((head q + int (Suc i)) mod capacity q)
            = items q ! nat ((head q + int (Suc i)) mod capacity q)" if "i < n" for i
  proof -
    have "(head q + int 0) mod capacity q \<noteq> (head q + int (Suc i)) mod capacity q"
      using that c n by (intro ring_distinct) auto
    moreover have "0 \<le> (head q + int (Suc i)) mod capacity q" using c by simp
    ultimately have "nat ((head q + int (Suc i)) mod capacity q) \<noteq> nat (head q)"
      using c h0 by (simp add: nat_eq_iff)
    then show ?thesis by simp
  qed
  have "pending q = items q ! nat (head q)
          # map (\<lambda>i. items q ! nat ((head q + int (Suc i)) mod capacity q)) [0..<n]"
    using h0 by (simp add: pending_alt n upt_conv_Cons map_Suc_upt [symmetric] del: upt_Suc)
  moreover have "pending (snd (dequeue_take q))
        = map (\<lambda>i. items q ! nat ((head q + int (Suc i)) mod capacity q)) [0..<n]"
    using keep by (simp add: pending_alt dequeue_take_def n t shift del: of_nat_Suc)
  ultimately show ?thesis by (simp add: dequeue_take_def)
qed

section \<open>Mutual exclusion\<close>

text \<open>
  The points of the two functions at which the calling thread owns \<open>queue->lock\<close>:
  all but the point before \<^verbatim>\<open>pthread_mutex_lock\<close> and the point inside
  \<^verbatim>\<open>pthread_cond_wait\<close>.
\<close>

fun holds_lock :: "thread \<Rightarrow> bool" where
  "holds_lock (In_enqueue pc item) = (pc \<noteq> E_lock \<and> pc \<noteq> E_wait)"
| "holds_lock (In_dequeue pc item) = (pc \<noteq> D_lock \<and> pc \<noteq> D_wait)"
| "holds_lock th = False"

definition mutex_ok :: "state \<Rightarrow> bool" where
  "mutex_ok s \<longleftrightarrow> (\<forall>t. holds_lock (threads s t) \<longrightarrow> lock (queue s) = Some t)"

definition ready_ok :: "state \<Rightarrow> bool" where
  "ready_ok s \<longleftrightarrow>
     (\<forall>t item. (threads s t = In_enqueue E_store item \<longrightarrow> \<not> queue_is_full (queue s)) \<and>
               (threads s t = In_dequeue D_take item \<longrightarrow> \<not> queue_is_empty (queue s)))"

definition sys_inv :: "state \<Rightarrow> bool" where
  "sys_inv s \<longleftrightarrow> queue_ok (queue s) \<and> mutex_ok s \<and> ready_ok s"

lemma queue_ok_sync [simp]:
  "queue_ok (q\<lparr>lock := l\<rparr>) = queue_ok q"
  "queue_ok (q\<lparr>not_empty := ne\<rparr>) = queue_ok q"
  "queue_ok (q\<lparr>not_full := nf\<rparr>) = queue_ok q"
  by (simp_all add: queue_ok_def)

lemma pending_sync [simp]:
  "pending (q\<lparr>lock := l\<rparr>) = pending q"
  "pending (q\<lparr>not_empty := ne\<rparr>) = pending q"
  "pending (q\<lparr>not_full := nf\<rparr>) = pending q"
  by (simp_all add: pending_def live_slots_def)

lemma full_sync [simp]:
  "queue_is_full (q\<lparr>lock := l\<rparr>) = queue_is_full q"
  "queue_is_full (q\<lparr>not_empty := ne\<rparr>) = queue_is_full q"
  "queue_is_full (q\<lparr>not_full := nf\<rparr>) = queue_is_full q"
  "queue_is_empty (q\<lparr>lock := l\<rparr>) = queue_is_empty q"
  "queue_is_empty (q\<lparr>not_empty := ne\<rparr>) = queue_is_empty q"
  "queue_is_empty (q\<lparr>not_full := nf\<rparr>) = queue_is_empty q"
  by (simp_all add: queue_is_full_def queue_is_empty_def)

lemma lock_store [simp]: "lock (enqueue_store q x) = lock q"
  by (simp add: enqueue_store_def)

lemma lock_take [simp]: "dequeue_take q = (x, q') \<Longrightarrow> lock q' = lock q"
  by (auto simp: dequeue_take_def)


lemma mutex_okD: "mutex_ok s \<Longrightarrow> holds_lock (threads s u) \<Longrightarrow> lock (queue s) = Some u"
  by (simp add: mutex_ok_def)

lemma enqueue_frame:
  "queue_enqueue t woken pc item s = Some s' \<Longrightarrow> u \<noteq> t \<Longrightarrow> threads s' u = threads s u"
  by (cases pc) (auto simp: queue_enqueue_def goto_def Let_def split: if_splits option.splits)

lemma dequeue_frame:
  "queue_dequeue t woken pc item s = Some s' \<Longrightarrow> u \<noteq> t \<Longrightarrow> threads s' u = threads s u"
  by (cases pc)
     (auto simp: queue_dequeue_def goto_def Let_def split: if_splits option.splits prod.splits)

lemma thread_step_frame:
  "step (Step t woken) s = Some s' \<Longrightarrow> u \<noteq> t \<Longrightarrow> threads s' u = threads s u"
  by (auto simp: step_def split: thread.splits dest: enqueue_frame dequeue_frame)

lemma enqueue_needs_lock:
  "queue_enqueue t woken pc item s = Some s' \<Longrightarrow> \<not> holds_lock (In_enqueue pc item) \<Longrightarrow>
   lock (queue s) = None"
  by (cases pc) (auto simp: queue_enqueue_def Let_def split: if_splits)

lemma dequeue_needs_lock:
  "queue_dequeue t woken pc item s = Some s' \<Longrightarrow> \<not> holds_lock (In_dequeue pc item) \<Longrightarrow>
   lock (queue s) = None"
  by (cases pc) (auto simp: queue_dequeue_def Let_def split: if_splits)

lemma thread_step_exclusive:
  assumes "step (Step t woken) s = Some s'" "mutex_ok s" "u \<noteq> t"
  shows "\<not> holds_lock (threads s u)"
proof
  assume "holds_lock (threads s u)"
  then have u: "lock (queue s) = Some u" using assms(2) by (rule mutex_okD [rotated])
  show False
  proof (cases "holds_lock (threads s t)")
    case True
    then have "lock (queue s) = Some t" using assms(2) by (rule mutex_okD [rotated])
    with u assms(3) show False by simp
  next
    case False
    with assms(1) have "lock (queue s) = None"
      by (auto simp: step_def split: thread.splits
               dest: enqueue_needs_lock dequeue_needs_lock)
    with u show False by simp
  qed
qed

lemma enqueue_step_self:
  assumes "queue_enqueue t woken pc item s = Some s'" "threads s t = In_enqueue pc item"
    "sys_inv s"
  shows "queue_ok (queue s') \<and>
         (holds_lock (threads s' t) \<longrightarrow> lock (queue s') = Some t) \<and>
         (\<forall>x. threads s' t = In_enqueue E_store x \<longrightarrow> \<not> queue_is_full (queue s')) \<and>
         (\<forall>x. threads s' t \<noteq> In_dequeue D_take x)"
proof -
  have ok: "queue_ok (queue s)" using assms(3) by (simp add: sys_inv_def)
  have l: "holds_lock (In_enqueue pc item) \<Longrightarrow> lock (queue s) = Some t"
    using assms(2,3) mutex_okD [of s t] by (simp add: sys_inv_def)
  have r: "pc = E_store \<Longrightarrow> \<not> queue_is_full (queue s)"
    using assms(2,3) by (simp add: sys_inv_def ready_ok_def)
  show ?thesis
    using assms(1) ok l r
    by (cases pc)
       (auto simp: queue_enqueue_def goto_def Let_def queue_ok_enqueue
             split: if_splits option.splits)
qed

lemma dequeue_step_self:
  assumes "queue_dequeue t woken pc item s = Some s'" "threads s t = In_dequeue pc item"
    "sys_inv s"
  shows "queue_ok (queue s') \<and>
         (holds_lock (threads s' t) \<longrightarrow> lock (queue s') = Some t) \<and>
         (\<forall>x. threads s' t = In_dequeue D_take x \<longrightarrow> \<not> queue_is_empty (queue s')) \<and>
         (\<forall>x. threads s' t \<noteq> In_enqueue E_store x)"
proof -
  have ok: "queue_ok (queue s)" using assms(3) by (simp add: sys_inv_def)
  have l: "holds_lock (In_dequeue pc item) \<Longrightarrow> lock (queue s) = Some t"
    using assms(2,3) mutex_okD [of s t] by (simp add: sys_inv_def)
  have r: "pc = D_take \<Longrightarrow> \<not> queue_is_empty (queue s)"
    using assms(2,3) by (simp add: sys_inv_def ready_ok_def)
  have d: "pc = D_take \<Longrightarrow> queue_ok (snd (dequeue_take (queue s)))"
    using ok r by (simp add: queue_ok_dequeue)
  show ?thesis
    using assms(1) ok l r d
    by (cases pc)
       (auto simp: queue_dequeue_def goto_def Let_def
             split: if_splits option.splits prod.splits)
qed

lemma thread_step_inv:
  assumes "step (Step t woken) s = Some s'" "sys_inv s"
  shows "sys_inv s'"
proof -
  have m: "mutex_ok s" using assms(2) by (simp add: sys_inv_def)
  have others: "\<not> holds_lock (threads s' u)" if "u \<noteq> t" for u
    using thread_step_exclusive [OF assms(1) m that] thread_step_frame [OF assms(1) that]
    by simp
  have self: "queue_ok (queue s') \<and>
         (holds_lock (threads s' t) \<longrightarrow> lock (queue s') = Some t) \<and>
         (\<forall>x. threads s' t = In_enqueue E_store x \<longrightarrow> \<not> queue_is_full (queue s')) \<and>
         (\<forall>x. threads s' t = In_dequeue D_take x \<longrightarrow> \<not> queue_is_empty (queue s'))"
    using assms enqueue_step_self [of t woken _ _ s s'] dequeue_step_self [of t woken _ _ s s']
    by (auto simp: step_def split: thread.splits)
  have "mutex_ok s'"
    unfolding mutex_ok_def
  proof (intro allI impI)
    fix u assume "holds_lock (threads s' u)"
    then show "lock (queue s') = Some u" using others [of u] self by (cases "u = t") auto
  qed
  moreover have "ready_ok s'"
    unfolding ready_ok_def
  proof (intro allI conjI impI)
    fix u x assume "threads s' u = In_enqueue E_store x"
    then show "\<not> queue_is_full (queue s')" using others [of u] self by (cases "u = t") auto
  next
    fix u x assume "threads s' u = In_dequeue D_take x"
    then show "\<not> queue_is_empty (queue s')" using others [of u] self by (cases "u = t") auto
  qed
  ultimately show ?thesis using self by (simp add: sys_inv_def)
qed

section \<open>Every item stored is handed out once, in order\<close>

lemma in_flight_sync [simp]:
  "in_flight (s\<lparr>shutdown_requested := v\<rparr>) = in_flight s"
  "in_flight (s\<lparr>stdout := out\<rparr>) = in_flight s"
  by (simp_all add: in_flight_def split: option.splits)

lemma signal_handler_frame [simp]:
  "queue (signal_handler sig s) = queue s"
  "threads (signal_handler sig s) = threads s"
  by (simp_all add: signal_handler_def signal_handler_actions_def)

lemma sys_inv_frame:
  "queue s' = queue s \<Longrightarrow> threads s' = threads s \<Longrightarrow> sys_inv s' = sys_inv s"
  by (simp add: sys_inv_def mutex_ok_def ready_ok_def)

lemma call_inv:
  assumes "step (Call t opn) s = Some s'" "sys_inv s"
  shows "sys_inv s'"
  using assms
  by (auto simp: step_def start_def goto_def sys_inv_def mutex_ok_def ready_ok_def
           split: thread.splits op.splits if_splits)

lemma spurious_inv:
  assumes "step (Spurious t) s = Some s'" "sys_inv s"
  shows "sys_inv s'"
  using assms
  by (auto simp: step_def sys_inv_def mutex_ok_def ready_ok_def)

lemma step_inv:
  assumes "step e s = Some s'" "sys_inv s"
  shows "sys_inv s'"
proof (cases e)
  case (Call t opn)
  then show ?thesis using assms call_inv by blast
next
  case (Step t woken)
  then show ?thesis using assms thread_step_inv by blast
next
  case (Signal sig)
  then have "s' = signal_handler sig s" using assms(1) by (simp add: step_def)
  then show ?thesis using assms(2) sys_inv_frame [of s' s] by simp
next
  case Main_shutdown
  then have "s' = s\<lparr>shutdown_requested := 1\<rparr>" using assms(1) by (simp add: step_def)
  then show ?thesis using assms(2) sys_inv_frame [of s' s] by simp
next
  case (Spurious t)
  then show ?thesis using assms spurious_inv by blast
qed

lemma enqueue_step_flow:
  assumes "queue_enqueue t woken pc item s = Some s'" "threads s t = In_enqueue pc item"
    "sys_inv s"
  shows "in_flight s @ pending (queue s) @ (if pc = E_store then [item] else [])
       = in_flight s' @ pending (queue s') \<and> capacity (queue s') = capacity (queue s)"
proof -
  have ok: "queue_ok (queue s)" using assms(3) by (simp add: sys_inv_def)
  have l: "holds_lock (In_enqueue pc item) \<Longrightarrow> lock (queue s) = Some t"
    using assms(2,3) mutex_okD [of s t] by (simp add: sys_inv_def)
  have r: "pc = E_store \<Longrightarrow> pending (enqueue_store (queue s) item) = pending (queue s) @ [item]"
    using assms(2,3) ok by (simp add: sys_inv_def ready_ok_def pending_enqueue)
  have c: "capacity (enqueue_store (queue s) item) = capacity (queue s)"
    by (simp add: enqueue_store_def)
  show ?thesis
    using assms(1,2) l r c
    by (cases pc)
       (auto simp: queue_enqueue_def goto_def Let_def in_flight_def
             split: if_splits option.splits)
qed

lemma dequeue_step_flow:
  assumes "queue_dequeue t woken pc item s = Some s'" "threads s t = In_dequeue pc item"
    "sys_inv s"
  shows "in_flight s @ pending (queue s)
       = (if pc = D_unlock then [item] else []) @ in_flight s' @ pending (queue s')
       \<and> capacity (queue s') = capacity (queue s)"
proof -
  have ok: "queue_ok (queue s)" using assms(3) by (simp add: sys_inv_def)
  have l: "holds_lock (In_dequeue pc item) \<Longrightarrow> lock (queue s) = Some t"
    using assms(2,3) mutex_okD [of s t] by (simp add: sys_inv_def)
  have r: "pc = D_take \<Longrightarrow>
           pending (queue s) = fst (dequeue_take (queue s)) # pending (snd (dequeue_take (queue s)))"
    using assms(2,3) ok by (simp add: sys_inv_def ready_ok_def pending_dequeue)
  have c: "capacity (snd (dequeue_take (queue s))) = capacity (queue s)"
    by (simp add: dequeue_take_def)
  show ?thesis
    using assms(1,2) l r c
    by (cases pc)
       (auto simp: queue_dequeue_def goto_def Let_def in_flight_def
             split: if_splits option.splits prod.splits)
qed

lemma step_flow:
  assumes "step e s = Some s'" "sys_inv s"
  shows "in_flight s @ pending (queue s) @ stored e s
       = handed_out e s @ in_flight s' @ pending (queue s')
       \<and> capacity (queue s') = capacity (queue s)"
proof (cases e)
  case (Call t opn)
  then show ?thesis using assms(1)
    by (auto simp: step_def start_def goto_def in_flight_def stored_def handed_out_def
             split: thread.splits op.splits option.splits)
next
  case (Step t woken)
  show ?thesis
  proof (cases "threads s t")
    case (In_enqueue pc item)
    then show ?thesis
      using assms Step enqueue_step_flow [of t woken pc item s s']
      by (cases pc) (auto simp: step_def stored_def handed_out_def)
  next
    case (In_dequeue pc item)
    then show ?thesis
      using assms Step dequeue_step_flow [of t woken pc item s s']
      by (cases pc) (auto simp: step_def stored_def handed_out_def)
  qed (use assms Step in \<open>auto simp: step_def\<close>)
next
  case (Signal sig)
  then show ?thesis using assms(1)
    by (auto simp: step_def in_flight_def stored_def handed_out_def split: option.splits)
next
  case Main_shutdown
  then show ?thesis using assms(1)
    by (auto simp: step_def in_flight_def stored_def handed_out_def split: option.splits)
next
  case (Spurious t)
  then show ?thesis using assms(1)
    by (auto simp: step_def in_flight_def stored_def handed_out_def split: option.splits)
qed

lemma run_flow:
  "run es s = Some s' \<Longrightarrow> sys_inv s \<Longrightarrow>
   sys_inv s' \<and> capacity (queue s') = capacity (queue s) \<and>
   in_flight s @ pending (queue s) @ enqueued es s
     = dequeued es s @ in_flight s' @ pending (queue s')"
proof (induction es arbitrary: s)
  case Nil
  then show ?case by simp
next
  case (Cons e es)
  from Cons.prems(1) obtain s1 where s1: "step e s = Some s1" "run es s1 = Some s'"
    by (auto split: option.splits)
  have i1: "sys_inv s1" using s1(1) Cons.prems(2) by (rule step_inv)
  have f1: "in_flight s @ pending (queue s) @ stored e s
          = handed_out e s @ in_flight s1 @ pending (queue s1)"
    and c1: "capacity (queue s1) = capacity (queue s)"
    using step_flow [OF s1(1) Cons.prems(2)] by simp_all
  have ih: "sys_inv s'" "capacity (queue s') = capacity (queue s1)"
    "in_flight s1 @ pending (queue s1) @ enqueued es s1
       = dequeued es s1 @ in_flight s' @ pending (queue s')"
    using Cons.IH [OF s1(2) i1] by simp_all
  have "in_flight s @ pending (queue s) @ enqueued (e # es) s
      = (in_flight s @ pending (queue s) @ stored e s) @ enqueued es s1"
    using s1(1) by simp
  also have "\<dots> = handed_out e s @ (in_flight s1 @ pending (queue s1) @ enqueued es s1)"
    using f1 by simp
  also have "\<dots> = dequeued (e # es) s @ in_flight s' @ pending (queue s')"
    using ih(3) s1(1) by simp
  finally show ?case using ih(1,2) c1 by simp
qed

lemma queue_create_Some:
  assumes "queue_create env c = Some q"
  shows "q = \<lparr>items = items q, head = 0, tail = 0, count = 0, capacity = c,
              lock = None, not_empty = [], not_full = []\<rparr>"
  using assms by (auto simp: queue_create_def split: if_splits option.splits)

lemma init_inv:
  assumes "queue_create env c = Some q" "0 < c" "int (length (items q)) = c"
  shows "sys_inv (init q) \<and> in_flight (init q) = [] \<and> pending (queue (init q)) = []
         \<and> capacity (queue (init q)) = c"
proof -
  have q: "head q = 0" "tail q = 0" "count q = 0" "capacity q = c" "lock q = None"
    using queue_create_Some [OF assms(1)]
    by (metis ThreadSafeQueue.select_convs(2), metis ThreadSafeQueue.select_convs(3),
        metis ThreadSafeQueue.select_convs(4), metis ThreadSafeQueue.select_convs(5),
        metis ThreadSafeQueue.select_convs(6))
  show ?thesis using q assms(2,3)
    by (simp add: init_def sys_inv_def mutex_ok_def ready_ok_def queue_ok_def
           in_flight_def pending_def live_slots_def queue_is_empty_def)
qed

lemma distinct_live_slots:
  assumes "queue_ok q"
  shows "distinct (live_slots q)"
proof -
  have c: "0 < capacity q" "0 \<le> head q" "0 \<le> count q" "count q \<le> capacity q"
    using assms by (auto simp: queue_ok_def)
  have "inj_on (\<lambda>i. nat ((head q + int i) mod capacity q)) {0..<nat (count q)}"
  proof (rule inj_onI)
    fix i j assume i: "i \<in> {0..<nat (count q)}" and j: "j \<in> {0..<nat (count q)}"
      and e: "nat ((head q + int i) mod capacity q) = nat ((head q + int j) mod capacity q)"
    have e': "(head q + int i) mod capacity q = (head q + int j) mod capacity q"
      using e c by (simp add: nat_eq_iff)
    show "i = j"
    proof (rule ccontr)
      assume "i \<noteq> j"
      then consider "i < j" | "j < i" by linarith
      then show False
      proof cases
        case 1
        then have "(head q + int i) mod capacity q \<noteq> (head q + int j) mod capacity q"
          using i j c by (intro ring_distinct) auto
        with e' show False by simp
      next
        case 2
        then have "(head q + int j) mod capacity q \<noteq> (head q + int i) mod capacity q"
          using i j c by (intro ring_distinct) auto
        with e' show False by simp
      qed
    qed
  qed
  then show ?thesis by (simp add: live_slots_def distinct_map)
qed

lemma live_slots_in_block:
  assumes "queue_ok q" "i \<in> set (live_slots q)"
  shows "i < length (items q)"
proof -
  have c: "0 < capacity q" "int (length (items q)) = capacity q"
    using assms by (auto simp: queue_ok_def)
  from assms(2) obtain k where "i = nat ((head q + int k) mod capacity q)"
    by (auto simp: live_slots_def)
  moreover have "(head q + int k) mod capacity q < capacity q" using c by simp
  ultimately show ?thesis using c by linarith
qed




subsection \<open>A run of the program used as an example\<close>

text \<open>
  A queue of capacity 2 whose block holds 7 and 9 when \<^verbatim>\<open>malloc\<close> returns it.
  Thread 0 enqueues 41, then 42; thread 1 dequeues once.
\<close>

definition demo_env :: create_env where
  "demo_env = \<lparr>queue_block_ok = True, items_block = Some [7, 9], lock_init_ok = True,
               not_empty_init_ok = True, not_full_init_ok = True\<rparr>"

definition demo_queue :: ThreadSafeQueue where
  "demo_queue = \<lparr>items = [7, 9], head = 0, tail = 0, count = 0, capacity = 2,
                 lock = None, not_empty = [], not_full = []\<rparr>"

definition demo_schedule :: "event list" where
  "demo_schedule =
     [Call 0 (Enqueue 41), Step 0 [], Step 0 [], Step 0 [], Step 0 [], Step 0 [],
      Call 0 (Enqueue 42), Step 0 [], Step 0 [], Step 0 [], Step 0 [], Step 0 [],
      Call 1 Dequeue, Step 1 [], Step 1 [], Step 1 [], Step 1 [], Step 1 []]"

lemmas machine_defs =
  step_def queue_enqueue_def queue_dequeue_def goto_def start_def cond_signal_def
  queue_is_full_def queue_is_empty_def enqueue_store_def dequeue_take_def
  signed_modulo_int_def init_def signal_handler_def signal_handler_actions_def
  SIGINT_def SIGTERM_def

lemma demo_create: "queue_create demo_env 2 = Some demo_queue"
  by (simp add: queue_create_def demo_env_def demo_queue_def)

lemma demo_run: "\<exists>s. run demo_schedule (init demo_queue) = Some s"
  by (simp add: demo_schedule_def demo_queue_def machine_defs)

lemma demo_enq: "enqueued demo_schedule (init demo_queue) = [41, 42]"
  by (simp add: demo_schedule_def demo_queue_def machine_defs stored_def)

lemma demo_deq: "dequeued demo_schedule (init demo_queue) = [41]"
  by (simp add: demo_schedule_def demo_queue_def machine_defs handed_out_def)

section \<open>The claims\<close>

text \<open>
  C1. Every state the program reaches from a freshly created queue of capacity
  \<open>c > 0\<close>, under any schedule of its threads (so after any sequence of successful
  enqueues and dequeues), has \<open>0 \<le> count \<le> capacity\<close> and \<open>head\<close>, \<open>tail\<close> in
  \<open>[0, capacity)\<close>; \<open>tail\<close> is \<open>count\<close> slots after \<open>head\<close> modulo the capacity;
  these \<open>count\<close> slots are distinct slots of the block, and they hold exactly the live
  items: the items enqueued and not yet handed out by a dequeue, in order (an item a
  dequeuer has taken and not yet returned is with that dequeuer).
\<close>

theorem queue_invariant_reachable:
  assumes "queue_create env c = Some q" and "0 < c" and "int (length (items q)) = c"
    and "run evs (init q) = Some s"
  shows "capacity (queue s) = c \<and>
         0 \<le> count (queue s) \<and> count (queue s) \<le> capacity (queue s) \<and>
         0 \<le> head (queue s) \<and> head (queue s) < capacity (queue s) \<and>
         0 \<le> tail (queue s) \<and> tail (queue s) < capacity (queue s) \<and>
         tail (queue s) = (head (queue s) + count (queue s)) mod capacity (queue s) \<and>
         int (length (live_slots (queue s))) = count (queue s) \<and>
         distinct (live_slots (queue s)) \<and>
         list_all (\<lambda>i. i < length (items (queue s))) (live_slots (queue s)) \<and>
         enqueued evs (init q) = dequeued evs (init q) @ in_flight s @ pending (queue s)"
proof -
  have i: "sys_inv (init q)" "in_flight (init q) = []" "pending (queue (init q)) = []"
    "capacity (queue (init q)) = c"
    using init_inv [OF assms(1-3)] by simp_all
  have r: "sys_inv s" "capacity (queue s) = capacity (queue (init q))"
    "in_flight (init q) @ pending (queue (init q)) @ enqueued evs (init q)
       = dequeued evs (init q) @ in_flight s @ pending (queue s)"
    using run_flow [OF assms(4) i(1)] by simp_all
  have ok: "queue_ok (queue s)" using r(1) by (simp add: sys_inv_def)
  have "int (length (live_slots (queue s))) = count (queue s)"
    using ok by (simp add: live_slots_def queue_ok_def)
  moreover have "list_all (\<lambda>i. i < length (items (queue s))) (live_slots (queue s))"
    using live_slots_in_block [OF ok] by (simp add: list_all_iff)
  moreover have "enqueued evs (init q) = dequeued evs (init q) @ in_flight s @ pending (queue s)"
    using r(3) i(2,3) by simp
  ultimately show ?thesis
    using ok distinct_live_slots [OF ok] r(2) i(4) by (simp add: queue_ok_def)
qed


theorem queue_invariant_reachable_witness:
  "queue_create demo_env 2 = Some demo_queue \<and> (0::int) < 2 \<and>
   int (length (items demo_queue)) = 2 \<and>
   (\<exists>s. run demo_schedule (init demo_queue) = Some s \<and>
     capacity (queue s) = 2 \<and>
     0 \<le> count (queue s) \<and> count (queue s) \<le> capacity (queue s) \<and>
     0 \<le> head (queue s) \<and> head (queue s) < capacity (queue s) \<and>
     0 \<le> tail (queue s) \<and> tail (queue s) < capacity (queue s) \<and>
     tail (queue s) = (head (queue s) + count (queue s)) mod capacity (queue s) \<and>
     int (length (live_slots (queue s))) = count (queue s) \<and>
     distinct (live_slots (queue s)) \<and>
     list_all (\<lambda>i. i < length (items (queue s))) (live_slots (queue s)) \<and>
     [41, 42] = [41] @ in_flight s @ pending (queue s))"
proof -
  have len: "int (length (items demo_queue)) = 2" by (simp add: demo_queue_def)
  obtain s where r: "run demo_schedule (init demo_queue) = Some s"
    using demo_run by blast
  show ?thesis
    using queue_invariant_reachable [OF demo_create _ len r] demo_create len r
      demo_enq demo_deq
    by auto
qed




text \<open>
  The two accesses to the block are inside it, and nothing the code computes on the
  four \<^verbatim>\<open>int\<close> fields leaves the range of a C \<^verbatim>\<open>int\<close>.
\<close>

lemma tail_in_block: "queue_ok q \<Longrightarrow> nat (tail q) < length (items q)"
  unfolding queue_ok_def by linarith

lemma head_in_block: "queue_ok q \<Longrightarrow> nat (head q) < length (items q)"
  unfolding queue_ok_def by linarith

definition INT_MAX :: int where
  "INT_MAX = 2 ^ 31 - 1"

lemma queue_ok_no_overflow:
  assumes "queue_ok q" "capacity q \<le> INT_MAX"
  shows "0 \<le> tail q + 1 \<and> tail q + 1 \<le> INT_MAX \<and> 0 \<le> head q + 1 \<and> head q + 1 \<le> INT_MAX \<and>
         (\<not> queue_is_full q \<longrightarrow> count q + 1 \<le> INT_MAX) \<and>
         (\<not> queue_is_empty q \<longrightarrow> 0 \<le> count q - 1)"
  using assms unfolding queue_ok_def queue_is_full_def queue_is_empty_def by linarith

lemma unlock_free: "lock q = None \<Longrightarrow> q\<lparr>lock := None\<rparr> = q"
  by (cases q) simp

lemma state_queue_same: "s\<lparr>queue := queue s\<rparr> = s"
  by (cases s) simp

text \<open>
  Two more queues of capacity 2, both reached from the fresh one: one holding the
  item 41, one full.
\<close>

definition demo_one :: ThreadSafeQueue where
  "demo_one = \<lparr>items = [41, 9], head = 0, tail = 1, count = 1, capacity = 2,
               lock = None, not_empty = [], not_full = []\<rparr>"

definition demo_full :: ThreadSafeQueue where
  "demo_full = \<lparr>items = [41, 42], head = 0, tail = 0, count = 2, capacity = 2,
                lock = None, not_empty = [], not_full = []\<rparr>"

lemma demo_one_reached:
  "map_option queue
     (run [Call 0 (Enqueue 41), Step 0 [], Step 0 [], Step 0 [], Step 0 [], Step 0 []]
        (init demo_queue)) = Some demo_one"
  by (simp add: demo_queue_def demo_one_def machine_defs)

lemma demo_full_reached:
  "map_option queue
     (run [Call 0 (Enqueue 41), Step 0 [], Step 0 [], Step 0 [], Step 0 [], Step 0 [],
           Call 0 (Enqueue 42), Step 0 [], Step 0 [], Step 0 [], Step 0 [], Step 0 []]
        (init demo_queue)) = Some demo_full"
  by (simp add: demo_queue_def demo_full_def machine_defs)

text \<open>
  C3. A call of \<^verbatim>\<open>queue_enqueue\<close> on a queue with \<open>count < capacity\<close> (the mutex
  free, the caller running to its return) returns 0, has written the item into the slot
  at \<open>tail\<close>, advanced \<open>tail\<close> by one modulo the capacity and incremented \<open>count\<close> by
  one. A call of \<^verbatim>\<open>queue_dequeue\<close> on a queue with \<open>count > 0\<close> returns the item in
  the slot at \<open>head\<close>, has cleared that slot, advanced \<open>head\<close> by one modulo the
  capacity and decremented \<open>count\<close> by one.
\<close>

theorem successful_call_changes_one_unit:
  "(queue_ok (queue s) \<and> lock (queue s) = None \<and> threads s t = Idle \<and>
    count (queue s) < capacity (queue s) \<and> cond_signal w (not_empty (queue s)) \<noteq> None \<longrightarrow>
      (\<exists>s'. run [Call t (Enqueue item), Step t [], Step t [], Step t [], Step t w, Step t []] s
              = Some s' \<and>
            threads s' t = Returned (Enq_result 0) \<and>
            items (queue s') = (items (queue s))[nat (tail (queue s)) := item] \<and>
            items (queue s') ! nat (tail (queue s)) = item \<and>
            tail (queue s') = (tail (queue s) + 1) mod capacity (queue s) \<and>
            head (queue s') = head (queue s) \<and>
            count (queue s') = count (queue s) + 1)) \<and>
   (queue_ok (queue s) \<and> lock (queue s) = None \<and> threads s t = Idle \<and>
    0 < count (queue s) \<and> cond_signal w (not_full (queue s)) \<noteq> None \<longrightarrow>
      (\<exists>s'. run [Call t Dequeue, Step t [], Step t [], Step t [], Step t w, Step t []] s
              = Some s' \<and>
            threads s' t = Returned (Deq_result (items (queue s) ! nat (head (queue s)))) \<and>
            items (queue s') = (items (queue s))[nat (head (queue s)) := NULL] \<and>
            head (queue s') = (head (queue s) + 1) mod capacity (queue s) \<and>
            tail (queue s') = tail (queue s) \<and>
            count (queue s') = count (queue s) - 1))"
proof (intro conjI impI)
  assume a: "queue_ok (queue s) \<and> lock (queue s) = None \<and> threads s t = Idle \<and>
    count (queue s) < capacity (queue s) \<and> cond_signal w (not_empty (queue s)) \<noteq> None"
  then obtain rest where rest: "cond_signal w (not_empty (queue s)) = Some rest" by auto
  have m: "(tail (queue s) + 1) smod capacity (queue s) = (tail (queue s) + 1) mod capacity (queue s)"
    using a by (simp add: smod_nonneg queue_ok_def)
  have b: "nat (tail (queue s)) < length (items (queue s))"
    using a by (simp add: tail_in_block)
  show "\<exists>s'. run [Call t (Enqueue item), Step t [], Step t [], Step t [], Step t w, Step t []] s
              = Some s' \<and>
            threads s' t = Returned (Enq_result 0) \<and>
            items (queue s') = (items (queue s))[nat (tail (queue s)) := item] \<and>
            items (queue s') ! nat (tail (queue s)) = item \<and>
            tail (queue s') = (tail (queue s) + 1) mod capacity (queue s) \<and>
            head (queue s') = head (queue s) \<and>
            count (queue s') = count (queue s) + 1"
    using a rest m b
    by (simp add: step_def start_def goto_def queue_enqueue_def queue_is_full_def
          enqueue_store_def)
next
  assume a: "queue_ok (queue s) \<and> lock (queue s) = None \<and> threads s t = Idle \<and>
    0 < count (queue s) \<and> cond_signal w (not_full (queue s)) \<noteq> None"
  then obtain rest where rest: "cond_signal w (not_full (queue s)) = Some rest" by auto
  have m: "(head (queue s) + 1) smod capacity (queue s) = (head (queue s) + 1) mod capacity (queue s)"
    using a by (simp add: smod_nonneg queue_ok_def)
  show "\<exists>s'. run [Call t Dequeue, Step t [], Step t [], Step t [], Step t w, Step t []] s
              = Some s' \<and>
            threads s' t = Returned (Deq_result (items (queue s) ! nat (head (queue s)))) \<and>
            items (queue s') = (items (queue s))[nat (head (queue s)) := NULL] \<and>
            head (queue s') = (head (queue s) + 1) mod capacity (queue s) \<and>
            tail (queue s') = tail (queue s) \<and>
            count (queue s') = count (queue s) - 1"
    using a rest m
    by (simp add: step_def start_def goto_def queue_dequeue_def queue_is_empty_def
          dequeue_take_def)
qed

theorem successful_call_changes_one_unit_witness:
  "(\<exists>s'. run [Call 0 (Enqueue 41), Step 0 [], Step 0 [], Step 0 [], Step 0 [], Step 0 []]
            (init demo_queue) = Some s' \<and>
          threads s' 0 = Returned (Enq_result 0) \<and>
          items (queue s') = [41, 9] \<and> tail (queue s') = 1 \<and> head (queue s') = 0 \<and>
          count (queue s') = 1) \<and>
   (\<exists>s'. run [Call 0 Dequeue, Step 0 [], Step 0 [], Step 0 [], Step 0 [], Step 0 []]
            (init demo_one) = Some s' \<and>
          threads s' 0 = Returned (Deq_result 41) \<and>
          items (queue s') = [NULL, 9] \<and> head (queue s') = 1 \<and> tail (queue s') = 1 \<and>
          count (queue s') = 0)"
proof -
  define s0 where "s0 = init demo_queue"
  define s1 where "s1 = init demo_one"
  have h0: "queue_ok (queue s0) \<and> lock (queue s0) = None \<and> threads s0 0 = Idle \<and>
      count (queue s0) < capacity (queue s0) \<and> cond_signal [] (not_empty (queue s0)) \<noteq> None"
    by (simp add: s0_def init_def queue_ok_def demo_queue_def cond_signal_def)
  have v0: "items (queue s0) = [7, 9]" "tail (queue s0) = 0" "head (queue s0) = 0"
      "count (queue s0) = 0" "capacity (queue s0) = 2"
    by (simp_all add: s0_def init_def demo_queue_def)
  have h1: "queue_ok (queue s1) \<and> lock (queue s1) = None \<and> threads s1 0 = Idle \<and>
      0 < count (queue s1) \<and> cond_signal [] (not_full (queue s1)) \<noteq> None"
    by (simp add: s1_def init_def queue_ok_def demo_one_def cond_signal_def)
  have v1: "items (queue s1) = [41, 9]" "tail (queue s1) = 1" "head (queue s1) = 0"
      "count (queue s1) = 1" "capacity (queue s1) = 2"
    by (simp_all add: s1_def init_def demo_one_def)
  have "\<exists>s'. run [Call 0 (Enqueue 41), Step 0 [], Step 0 [], Step 0 [], Step 0 [], Step 0 []] s0
            = Some s' \<and>
          threads s' 0 = Returned (Enq_result 0) \<and>
          items (queue s') = [41, 9] \<and> tail (queue s') = 1 \<and> head (queue s') = 0 \<and>
          count (queue s') = 1"
    using successful_call_changes_one_unit
            [where s = s0 and t = 0 and w = "[]" and item = 41, THEN conjunct1] h0
    by (auto simp: v0)
  moreover have "\<exists>s'. run [Call 0 Dequeue, Step 0 [], Step 0 [], Step 0 [], Step 0 [], Step 0 []] s1
            = Some s' \<and>
          threads s' 0 = Returned (Deq_result 41) \<and>
          items (queue s') = [NULL, 9] \<and> head (queue s') = 1 \<and> tail (queue s') = 1 \<and>
          count (queue s') = 0"
    using successful_call_changes_one_unit
            [where s = s1 and t = 0 and w = "[]" and item = 41, THEN conjunct2] h1
    by (auto simp: v1)
  ultimately show ?thesis by (simp add: s0_def s1_def)
qed

subsection \<open>A cancelled enqueue\<close>

text \<open>
  While thread \<open>t\<close> is in one call, no event is a new call by \<open>t\<close> (\<open>same_call\<close>).
  In an \<open>undisturbed\<close> schedule nobody but \<open>t\<close> moves: the events are steps of
  \<open>t\<close>, shutdown requests and spurious wakeups. \<open>enqueued_by t\<close> lists the items
  thread \<open>t\<close> stores along a schedule. Thread \<open>t\<close> is either before the store of lines
  165-167 (or back with -1), or committed to it (or back with 0). \<open>ring\<close> is the data
  of the queue: the slots and the four counters.
\<close>

definition same_call :: "tid \<Rightarrow> event \<Rightarrow> bool" where
  "same_call t e = (case e of Call u opn \<Rightarrow> u \<noteq> t | _ \<Rightarrow> True)"



definition undisturbed :: "tid \<Rightarrow> event \<Rightarrow> bool" where
  "undisturbed t e =
     (case e of Call u opn \<Rightarrow> False | Step u woken \<Rightarrow> u = t | _ \<Rightarrow> True)"



definition ring :: "ThreadSafeQueue \<Rightarrow> ptr list \<times> int \<times> int \<times> int \<times> int" where
  "ring q = (items q, head q, tail q, count q, capacity q)"

lemma ring_sync [simp]:
  "ring (q\<lparr>lock := l\<rparr>) = ring q"
  "ring (q\<lparr>not_empty := ne\<rparr>) = ring q"
  "ring (q\<lparr>not_full := nf\<rparr>) = ring q"
  by (simp_all add: ring_def)

lemma other_event_frame:
  assumes "step e s = Some s'" "same_call t e" "\<not> (\<exists>woken. e = Step t woken)"
  shows "threads s' t = threads s t"
proof (cases e)
  case (Call u opn)
  then show ?thesis using assms(1,2)
    by (auto simp: step_def same_call_def goto_def split: thread.splits)
next
  case (Step u woken)
  then have "t \<noteq> u" using assms(3) by auto
  then show ?thesis using thread_step_frame [of u woken s s' t] assms(1) Step by simp
qed (use assms in \<open>auto simp: step_def\<close>)





lemma undisturbed_same_call: "undisturbed t e \<Longrightarrow> same_call t e"
  by (cases e) (simp_all add: undisturbed_def same_call_def)









subsection \<open>A dequeue at shutdown\<close>

text \<open>
  \<open>returns_of t\<close> lists what thread \<open>t\<close> returns along a schedule, each result with
  the data of the queue at that moment. \<open>own_step t\<close> picks the steps of \<open>t\<close> out of
  a schedule. A dequeuer at its loop test has two steps left before the return of line
  186, one at the flag test. \<open>draining t x s0 s\<close>: in state \<open>s\<close> thread \<open>t\<close> is at
  one of these two points, the flag is set and the data of the queue is that of \<open>s0\<close>.
\<close>

definition returned_by ::
  "tid \<Rightarrow> event \<Rightarrow> state \<Rightarrow> (result \<times> ptr list \<times> int \<times> int \<times> int \<times> int) list" where
  "returned_by t e s =
     (case e of
        Step u woken \<Rightarrow>
          (if u = t
           then (case step e s of
                   None \<Rightarrow> []
                 | Some s' \<Rightarrow>
                     (case threads s' t of Returned r \<Rightarrow> [(r, ring (queue s'))] | _ \<Rightarrow> []))
           else [])
      | _ \<Rightarrow> [])"

fun returns_of ::
  "tid \<Rightarrow> event list \<Rightarrow> state \<Rightarrow> (result \<times> ptr list \<times> int \<times> int \<times> int \<times> int) list" where
  "returns_of t [] s = []"
| "returns_of t (e # es) s =
     (case step e s of None \<Rightarrow> [] | Some s' \<Rightarrow> returned_by t e s @ returns_of t es s')"

definition own_step :: "tid \<Rightarrow> event \<Rightarrow> bool" where
  "own_step t e = (case e of Step u woken \<Rightarrow> u = t | _ \<Rightarrow> False)"

fun steps_left :: "thread \<Rightarrow> nat" where
  "steps_left (In_dequeue D_loop x) = 2"
| "steps_left (In_dequeue D_check x) = 1"
| "steps_left th = 0"

definition draining :: "tid \<Rightarrow> ptr \<Rightarrow> state \<Rightarrow> state \<Rightarrow> bool" where
  "draining t x s0 s \<longleftrightarrow>
     sys_inv s \<and> shutdown_requested s \<noteq> 0 \<and> ring (queue s) = ring (queue s0) \<and>
     (threads s t = In_dequeue D_loop x \<or> threads s t = In_dequeue D_check x)"

lemma ring_count: "ring q = ring q' \<Longrightarrow> count q = count q'"
  by (simp add: ring_def)

lemma draining_step:
  assumes "draining t x s0 s" "count (queue s0) = 0" "step e s = Some s'" "same_call t e"
  shows "(draining t x s0 s' \<and> returned_by t e s = [] \<and>
          steps_left (threads s' t) + (if own_step t e then 1 else 0) \<le> steps_left (threads s t))
         \<or> (threads s' t = Returned (Deq_result NULL) \<and>
             returned_by t e s = [(Deq_result NULL, ring (queue s0))])"
proof -
  have inv: "sys_inv s" and fl: "shutdown_requested s \<noteq> 0"
    and rg: "ring (queue s) = ring (queue s0)"
    and at: "threads s t = In_dequeue D_loop x \<or> threads s t = In_dequeue D_check x"
    using assms(1) by (simp_all add: draining_def)
  have inv': "sys_inv s'" using assms(3) inv by (rule step_inv)
  have cnt: "count (queue s) = 0" using rg assms(2) ring_count by metis
  have hl: "holds_lock (threads s t)" using at by auto
  show ?thesis
  proof (cases e)
    case (Call u opn)
    then have "u \<noteq> t" using assms(4) by (simp add: same_call_def)
    then show ?thesis using Call assms(3) inv' fl rg at
      by (auto simp: step_def goto_def draining_def returned_by_def own_step_def
               split: thread.splits)
  next
    case (Step u woken)
    show ?thesis
    proof (cases "u = t")
      case True
      from at show ?thesis
      proof
        assume a: "threads s t = In_dequeue D_loop x"
        then have "s' = goto t (In_dequeue D_check x) s"
          using assms(3) Step True cnt
          by (simp add: step_def queue_dequeue_def queue_is_empty_def)
        then show ?thesis using a inv' fl rg Step True assms(3)
          by (simp add: draining_def goto_def returned_by_def own_step_def)
      next
        assume a: "threads s t = In_dequeue D_check x"
        then have "s' = goto t (Returned (Deq_result NULL)) (s\<lparr>queue := (queue s)\<lparr>lock := None\<rparr>\<rparr>)"
          using assms(3) Step True fl
          by (simp add: step_def queue_dequeue_def)
        then show ?thesis using a rg Step True assms(3)
          by (simp add: goto_def returned_by_def)
      qed
    next
      case False
      have m: "mutex_ok s" using inv by (simp add: sys_inv_def)
      have "\<not> holds_lock (threads s t)"
        using thread_step_exclusive [of u woken s s' t] assms(3) Step m False by simp
      then show ?thesis using hl by simp
    qed
  next
    case (Signal sig)
    then have "s' = signal_handler sig s" using assms(3) by (simp add: step_def)
    moreover have "shutdown_requested (signal_handler sig s) \<noteq> 0"
      using fl by (simp add: signal_handler_def signal_handler_actions_def)
    ultimately show ?thesis using Signal inv' rg at
      by (simp add: draining_def returned_by_def own_step_def)
  next
    case Main_shutdown
    then show ?thesis using assms(3) inv' rg at
      by (auto simp: step_def draining_def returned_by_def own_step_def)
  next
    case (Spurious u)
    then show ?thesis using assms(3) inv' fl rg at
      by (auto simp: step_def draining_def returned_by_def own_step_def)
  qed
qed

lemma returned_stays:
  assumes "threads s t = Returned r" "step e s = Some s'" "same_call t e"
  shows "threads s' t = Returned r \<and> returned_by t e s = []"
proof (cases "\<exists>woken. e = Step t woken")
  case True
  then show ?thesis using assms(1,2) by (auto simp: step_def)
next
  case False
  have "returned_by t e s = []"
    using False by (auto simp: returned_by_def split: event.splits)
  then show ?thesis using other_event_frame [OF assms(2,3) False] assms(1) by simp
qed

lemma returned_run:
  "run evs s = Some s' \<Longrightarrow> list_all (same_call t) evs \<Longrightarrow> threads s t = Returned r \<Longrightarrow>
   threads s' t = Returned r \<and> returns_of t evs s = []"
proof (induction evs arbitrary: s)
  case Nil
  then show ?case by simp
next
  case (Cons e evs)
  from Cons.prems(1) obtain s1 where s1: "step e s = Some s1" "run evs s1 = Some s'"
    by (auto split: option.splits)
  have k: "threads s1 t = Returned r \<and> returned_by t e s = []"
    using returned_stays [OF Cons.prems(3) s1(1)] Cons.prems(2) by simp
  then show ?case using Cons.IH [OF s1(2)] Cons.prems(2) s1(1) by simp
qed

lemma draining_run:
  "run evs s = Some s' \<Longrightarrow> list_all (same_call t) evs \<Longrightarrow> draining t x s0 s \<Longrightarrow>
   count (queue s0) = 0 \<Longrightarrow>
   (draining t x s0 s' \<and> returns_of t evs s = [] \<and>
    length (filter (own_step t) evs) < steps_left (threads s t))
   \<or> (threads s' t = Returned (Deq_result NULL) \<and>
       returns_of t evs s = [(Deq_result NULL, ring (queue s0))])"
proof (induction evs arbitrary: s)
  case Nil
  then show ?case by (auto simp: draining_def)
next
  case (Cons e evs)
  from Cons.prems(1) obtain s1 where s1: "step e s = Some s1" "run evs s1 = Some s'"
    by (auto split: option.splits)
  have u: "same_call t e" "list_all (same_call t) evs" using Cons.prems(2) by simp_all
  from draining_step [OF Cons.prems(3,4) s1(1) u(1)]
  show ?case
  proof
    assume a: "draining t x s0 s1 \<and> returned_by t e s = [] \<and>
          steps_left (threads s1 t) + (if own_step t e then 1 else 0) \<le> steps_left (threads s t)"
    then show ?thesis using Cons.IH [OF s1(2) u(2) _ Cons.prems(4)] s1(1) by auto
  next
    assume a: "threads s1 t = Returned (Deq_result NULL) \<and>
             returned_by t e s = [(Deq_result NULL, ring (queue s0))]"
    then show ?thesis using returned_run [OF s1(2) u(2)] s1(1) by simp
  qed
qed

text \<open>
  Three examples with the flag set. In \<open>demo_drain\<close> thread 0 has called
  \<^verbatim>\<open>queue_dequeue\<close> on the empty queue and holds the mutex, at its loop test; in
  \<open>demo_drain_schedule\<close> a producer calls in, a signal arrives, and thread 0 takes
  its two steps. In \<open>demo_race\<close> thread 0 calls \<^verbatim>\<open>queue_dequeue\<close> on the empty
  queue and, before it has taken the mutex, a producer (thread 1) enqueues 41.
\<close>

definition demo_drain :: state where
  "demo_drain =
     \<lparr>queue = demo_queue\<lparr>lock := Some 0\<rparr>, shutdown_requested = 1,
      threads = (\<lambda>t. Idle)(0 := In_dequeue D_loop NULL), stdout = []\<rparr>"

definition demo_drain_schedule :: "event list" where
  "demo_drain_schedule =
     [Call 1 (Enqueue 41), Signal SIGINT, Step 0 [], Spurious 1, Step 0 []]"

definition demo_race :: "event list" where
  "demo_race =
     [Call 0 Dequeue,
      Call 1 (Enqueue 41), Step 1 [], Step 1 [], Step 1 [], Step 1 [], Step 1 [],
      Step 0 [], Step 0 [], Step 0 [], Step 0 [], Step 0 []]"

lemma demo_drain_reached:
  "run [Main_shutdown, Call 0 Dequeue, Step 0 []] (init demo_queue) = Some demo_drain"
  by (simp add: demo_queue_def demo_drain_def machine_defs)

lemma demo_drain_run:
  "\<exists>s'. run demo_drain_schedule demo_drain = Some s' \<and>
        threads s' 0 = Returned (Deq_result NULL)"
  by (simp add: demo_drain_schedule_def demo_drain_def demo_queue_def machine_defs)

text \<open>
  C5, as the code has it. A call of \<^verbatim>\<open>queue_dequeue\<close> that holds the mutex and
  finds, at its loop test, \<open>count\<close> 0 and the flag set returns \<open>NULL\<close>, under any
  schedule: it is never blocked, never enters \<^verbatim>\<open>pthread_cond_wait\<close>, takes nothing out
  of the queue, has returned once it has taken two steps, and \<open>count\<close>, \<open>head\<close>,
  \<open>tail\<close> and the slots are at its return what it found. A call made when the flag
  is set, \<open>count\<close> is 0 and the mutex is free, and that runs before anybody else
  moves, returns \<open>NULL\<close> after three steps and leaves the state as it was but for the
  caller being back.
\<close>

theorem dequeue_drains_under_lock:
  assumes "queue_create env c = Some q" and "0 < c" and "int (length (items q)) = c"
    and "run evs0 (init q) = Some s"
    and "threads s t = In_dequeue D_loop x"
    and "count (queue s) = 0" and "shutdown_requested s \<noteq> 0"
    and "list_all (same_call t) evs" and "run evs s = Some s'"
  shows "lock (queue s) = Some t \<and>
         (((threads s' t = In_dequeue D_loop x \<or> threads s' t = In_dequeue D_check x) \<and>
           ring (queue s') = ring (queue s) \<and> returns_of t evs s = [] \<and>
           length (filter (own_step t) evs) < 2 \<and> step (Step t w) s' \<noteq> None)
          \<or> (threads s' t = Returned (Deq_result NULL) \<and>
              returns_of t evs s = [(Deq_result NULL, ring (queue s))])) \<and>
         (threads s1 u = Idle \<and> lock (queue s1) = None \<and> shutdown_requested s1 \<noteq> 0 \<and>
          count (queue s1) = 0 \<longrightarrow>
            run [Call u Dequeue, Step u w1, Step u w2, Step u w3] s1
              = Some (goto u (Returned (Deq_result NULL)) s1))"
proof (intro conjI impI)
  have i: "sys_inv (init q)" using init_inv [OF assms(1-3)] by simp
  have inv: "sys_inv s" using run_flow [OF assms(4) i] by simp
  then show "lock (queue s) = Some t"
    using assms(5) mutex_okD [of s t] by (simp add: sys_inv_def)
  have d: "draining t x s s" using inv assms(5,7) by (simp add: draining_def)
  have sl: "steps_left (threads s t) = 2" using assms(5) by simp
  from draining_run [OF assms(9,8) d assms(6)]
  show "((threads s' t = In_dequeue D_loop x \<or> threads s' t = In_dequeue D_check x) \<and>
           ring (queue s') = ring (queue s) \<and> returns_of t evs s = [] \<and>
           length (filter (own_step t) evs) < 2 \<and> step (Step t w) s' \<noteq> None)
          \<or> (threads s' t = Returned (Deq_result NULL) \<and>
              returns_of t evs s = [(Deq_result NULL, ring (queue s))])"
  proof
    assume a: "draining t x s s' \<and> returns_of t evs s = [] \<and>
      length (filter (own_step t) evs) < steps_left (threads s t)"
    then have "step (Step t w) s' \<noteq> None"
      by (auto simp: draining_def step_def queue_dequeue_def)
    then show ?thesis using a sl by (auto simp: draining_def)
  next
    assume "threads s' t = Returned (Deq_result NULL) \<and>
       returns_of t evs s = [(Deq_result NULL, ring (queue s))]"
    then show ?thesis by simp
  qed
next
  assume "threads s1 u = Idle \<and> lock (queue s1) = None \<and> shutdown_requested s1 \<noteq> 0 \<and>
          count (queue s1) = 0"
  then show "run [Call u Dequeue, Step u w1, Step u w2, Step u w3] s1
              = Some (goto u (Returned (Deq_result NULL)) s1)"
    by (simp add: step_def start_def goto_def queue_dequeue_def queue_is_empty_def
        unlock_free state_queue_same)
qed

theorem dequeue_drains_under_lock_witness:
  "queue_create demo_env 2 = Some demo_queue \<and> (0::int) < 2 \<and>
   int (length (items demo_queue)) = 2 \<and>
   run [Main_shutdown, Call 0 Dequeue, Step 0 []] (init demo_queue) = Some demo_drain \<and>
   threads demo_drain 0 = In_dequeue D_loop NULL \<and>
   count (queue demo_drain) = 0 \<and> shutdown_requested demo_drain \<noteq> 0 \<and>
   list_all (same_call 0) demo_drain_schedule \<and>
   lock (queue demo_drain) = Some 0 \<and>
   (\<exists>s'. run demo_drain_schedule demo_drain = Some s' \<and>
         threads s' 0 = Returned (Deq_result NULL) \<and>
         returns_of 0 demo_drain_schedule demo_drain = [(Deq_result NULL, [7, 9], 0, 0, 0, 2)]) \<and>
   run [Call 0 Dequeue, Step 0 [], Step 0 [], Step 0 []]
       ((init demo_queue)\<lparr>shutdown_requested := 1\<rparr>)
     = Some (goto 0 (Returned (Deq_result NULL)) ((init demo_queue)\<lparr>shutdown_requested := 1\<rparr>))"
proof -
  define se where "se = (init demo_queue)\<lparr>shutdown_requested := 1\<rparr>"
  have len: "int (length (items demo_queue)) = 2" by (simp add: demo_queue_def)
  have h: "threads demo_drain 0 = In_dequeue D_loop NULL" "count (queue demo_drain) = 0"
    "shutdown_requested demo_drain \<noteq> 0"
    by (simp_all add: demo_drain_def demo_queue_def)
  have sc: "list_all (same_call 0) demo_drain_schedule"
    by (simp add: demo_drain_schedule_def same_call_def)
  have rg: "ring (queue demo_drain) = ([7, 9], 0, 0, 0, 2)"
    by (simp add: demo_drain_def demo_queue_def ring_def)
  have he: "threads se 0 = Idle \<and> lock (queue se) = None \<and> shutdown_requested se \<noteq> 0 \<and>
      count (queue se) = 0"
    by (simp add: se_def init_def demo_queue_def)
  obtain s' where r: "run demo_drain_schedule demo_drain = Some s'"
      and t: "threads s' 0 = Returned (Deq_result NULL)"
    using demo_drain_run by blast
  note th = dequeue_drains_under_lock
      [OF demo_create _ len demo_drain_reached h sc r,
       where ?s1.0 = se and u = 0 and ?w1.0 = "[]" and ?w2.0 = "[]" and ?w3.0 = "[]" and w = "[]"]
  have 1: "lock (queue demo_drain) = Some 0"
    and 2: "returns_of 0 demo_drain_schedule demo_drain = [(Deq_result NULL, [7, 9], 0, 0, 0, 2)]"
    and 3: "run [Call 0 Dequeue, Step 0 [], Step 0 [], Step 0 []] se
              = Some (goto 0 (Returned (Deq_result NULL)) se)"
    using th t rg he by auto
  show ?thesis
    using demo_create len demo_drain_reached h sc 1 2 3 r t unfolding se_def by auto
qed

text \<open>
  C5 as stated fails: in \<open>demo_race\<close> the call is made with the flag set and
  \<open>count\<close> 0, and it returns the item 41 that the producer stored before the call
  had the mutex, having cleared a slot and advanced \<open>head\<close>.
\<close>

theorem dequeue_drain_counterexample:
  "threads ((init demo_queue)\<lparr>shutdown_requested := 1\<rparr>) 0 = Idle \<and>
   shutdown_requested ((init demo_queue)\<lparr>shutdown_requested := 1\<rparr>) = 1 \<and>
   count (queue ((init demo_queue)\<lparr>shutdown_requested := 1\<rparr>)) = 0 \<and>
   head (queue ((init demo_queue)\<lparr>shutdown_requested := 1\<rparr>)) = 0 \<and>
   items (queue ((init demo_queue)\<lparr>shutdown_requested := 1\<rparr>)) = [7, 9] \<and>
   (case run demo_race ((init demo_queue)\<lparr>shutdown_requested := 1\<rparr>) of
      None \<Rightarrow> False
    | Some s' \<Rightarrow>
        threads s' 0 = Returned (Deq_result 41) \<and>
        threads s' 1 = Returned (Enq_result 0) \<and>
        items (queue s') = [NULL, 9] \<and> head (queue s') = 1 \<and> tail (queue s') = 1 \<and>
        count (queue s') = 0)"
  by (simp add: demo_race_def demo_queue_def machine_defs)

subsection \<open>Threads blocked at shutdown\<close>

text \<open>
  A thread is asleep when it is outside the queue's functions or blocked on one of the
  two condition variables. The events that do not wake a thread from outside the
  program's own code are the steps of the threads and the shutdown requests (no new
  call, no spurious wakeup). The second example state has two consumers blocked on the
  empty queue.
\<close>

definition asleep :: "state \<Rightarrow> tid \<Rightarrow> bool" where
  "asleep s t =
     (case threads s t of
        Idle \<Rightarrow> True
      | Returned r \<Rightarrow> True
      | In_enqueue pc x \<Rightarrow> pc = E_wait \<and> t \<in> set (not_full (queue s))
      | In_dequeue pc x \<Rightarrow> pc = D_wait \<and> t \<in> set (not_empty (queue s)))"

definition no_wakeup :: "event \<Rightarrow> bool" where
  "no_wakeup e = (case e of Call t opn \<Rightarrow> False | Spurious t \<Rightarrow> False | _ \<Rightarrow> True)"

lemma asleep_step:
  assumes "step e s = Some s'" "no_wakeup e" "\<forall>t. asleep s t"
  shows "threads s' = threads s \<and> queue s' = queue s"
proof (cases e)
  case (Step t woken)
  have "asleep s t" using assms(3) by simp
  then have "step (Step t woken) s = None"
    by (cases "threads s t")
       (auto simp: asleep_def step_def queue_enqueue_def queue_dequeue_def)
  then show ?thesis using assms(1) Step by simp
qed (use assms in \<open>auto simp: step_def no_wakeup_def signal_handler_def signal_handler_actions_def\<close>)

definition demo_blocked :: state where
  "demo_blocked =
     \<lparr>queue = demo_queue\<lparr>not_empty := [0, 1]\<rparr>, shutdown_requested = 0,
      threads = (\<lambda>t. Idle)(0 := In_dequeue D_wait NULL, 1 := In_dequeue D_wait NULL),
      stdout = []\<rparr>"

lemma demo_blocked_reached:
  "run [Call 0 Dequeue, Step 0 [], Step 0 [], Step 0 [],
        Call 1 Dequeue, Step 1 [], Step 1 [], Step 1 []] (init demo_queue) = Some demo_blocked"
  by (simp add: demo_queue_def demo_blocked_def machine_defs)

text \<open>
  C6 fails on the code. Once every thread that is inside the queue is blocked on a
  condition variable, no number of scheduling steps and shutdown requests lets any of
  them return: setting \<^verbatim>\<open>shutdown_requested\<close> signals no condition variable, and
  the blocked threads are the only ones that could.
\<close>

theorem shutdown_wakes_nobody:
  assumes "\<forall>t. asleep s t" and "list_all no_wakeup evs" and "run evs s = Some s'"
  shows "threads s' = threads s \<and> queue s' = queue s"
  using assms
proof (induction evs arbitrary: s)
  case Nil
  then show ?case by simp
next
  case (Cons e evs)
  from Cons.prems(3) obtain s1 where s1: "step e s = Some s1" "run evs s1 = Some s'"
    by (auto split: option.splits)
  have k: "threads s1 = threads s \<and> queue s1 = queue s"
    using asleep_step [OF s1(1) _ Cons.prems(1)] Cons.prems(2) by simp
  then have "\<forall>t. asleep s1 t" using Cons.prems(1) by (simp add: asleep_def cong: thread.case_cong)
  then show ?case using Cons.IH [OF _ _ s1(2)] Cons.prems(2) k by simp
qed

theorem shutdown_wakes_nobody_witness:
  "run [Call 0 Dequeue, Step 0 [], Step 0 [], Step 0 [],
        Call 1 Dequeue, Step 1 [], Step 1 [], Step 1 []] (init demo_queue) = Some demo_blocked \<and>
   (\<forall>t. asleep demo_blocked t) \<and>
   list_all no_wakeup [Main_shutdown, Signal SIGINT] \<and>
   (\<exists>s'. run [Main_shutdown, Signal SIGINT] demo_blocked = Some s' \<and>
         shutdown_requested s' = 1 \<and>
         threads s' = threads demo_blocked \<and> queue s' = queue demo_blocked \<and>
         threads s' 0 = In_dequeue D_wait NULL \<and> threads s' 1 = In_dequeue D_wait NULL \<and>
         step (Step 0 []) s' = None \<and> step (Step 1 []) s' = None)"
proof -
  have a: "\<forall>t. asleep demo_blocked t"
    by (simp add: asleep_def demo_blocked_def)
  have n: "list_all no_wakeup [Main_shutdown, Signal SIGINT]"
    by (simp add: no_wakeup_def)
  obtain s' where r: "run [Main_shutdown, Signal SIGINT] demo_blocked = Some s'"
      and f: "shutdown_requested s' = 1"
    by (simp add: machine_defs)
  have k: "threads s' = threads demo_blocked \<and> queue s' = queue demo_blocked"
    using shutdown_wakes_nobody [OF a n r] .
  have w: "threads demo_blocked 0 = In_dequeue D_wait NULL"
    "threads demo_blocked 1 = In_dequeue D_wait NULL"
    "not_empty (queue demo_blocked) = [0, 1]"
    by (simp_all add: demo_blocked_def)
  have "step (Step 0 []) s' = None" "step (Step 1 []) s' = None"
    using k w by (simp_all add: step_def queue_dequeue_def)
  then show ?thesis using demo_blocked_reached a n r f k w by auto
qed




section \<open>The signal handler\<close>

text \<open>
  C8 fails on the code. For \<^verbatim>\<open>SIGINT\<close> and \<^verbatim>\<open>SIGTERM\<close> the handler first calls
  \<^verbatim>\<open>printf\<close>, which is not async-signal-safe and writes to the standard output, and
  then sets the flag.
\<close>

theorem signal_handler_prints:
  "signal_handler_actions SIGINT = [Printf shutdown_message, Store_shutdown_requested 1] \<and>
   signal_handler_actions SIGTERM = [Printf shutdown_message, Store_shutdown_requested 1] \<and>
   \<not> list_all async_signal_safe (signal_handler_actions SIGINT) \<and>
   shutdown_requested (signal_handler SIGINT s) = 1 \<and>
   stdout (signal_handler SIGINT s) = stdout s @ [shutdown_message] \<and>
   stdout (signal_handler SIGINT s) \<noteq> stdout s"
  by (simp add: signal_handler_def signal_handler_actions_def SIGINT_def SIGTERM_def)

section \<open>Worker statistics\<close>

text \<open>
  \<^verbatim>\<open>WorkerStats\<close> (lines 43-50), a slot as \<^verbatim>\<open>initialize_app_context\<close> leaves it
  (zeroed by \<^verbatim>\<open>calloc\<close>, line 449, then lines 480-483), and the update a worker makes
  after a task (lines 289-298). The counters are \<^verbatim>\<open>long\<close>, here integers. The times
  are \<^verbatim>\<open>double\<close>, here real numbers: the comparisons and the constants 0 and 1000.0
  are exact on both; the rounding of \<^verbatim>\<open>+=\<close> is not modelled.
\<close>

record WorkerStats =
  thread_id :: int
  tasks_completed :: int
  tasks_failed :: int
  total_processing_time :: real
  max_processing_time :: real
  min_processing_time :: real

definition initial_worker_stats :: "int \<Rightarrow> WorkerStats" where
  "initial_worker_stats i =
     \<lparr>thread_id = i, tasks_completed = 0, tasks_failed = 0, total_processing_time = 0,
      max_processing_time = 0, min_processing_time = 1000\<rparr>"

definition update_stats :: "WorkerStats \<Rightarrow> real \<Rightarrow> WorkerStats" where
  "update_stats stats processing_time =
     (let s1 = stats\<lparr>tasks_completed := tasks_completed stats + 1\<rparr>;
          s2 = s1\<lparr>total_processing_time := total_processing_time s1 + processing_time\<rparr>;
          s3 = (if processing_time > max_processing_time s2
                then s2\<lparr>max_processing_time := processing_time\<rparr> else s2)
      in if min_processing_time s3 = 0 \<or> processing_time < min_processing_time s3
         then s3\<lparr>min_processing_time := processing_time\<rparr> else s3)"

lemma min_update:
  "min_processing_time (update_stats st t)
     = (if min_processing_time st = 0 \<or> t < min_processing_time st then t
        else min_processing_time st)"
  by (simp add: update_stats_def Let_def)

lemma min_run:
  "min_processing_time st \<noteq> 0 \<Longrightarrow> 0 \<notin> set ts \<Longrightarrow>
   min_processing_time (foldl update_stats st ts) = Min (set (min_processing_time st # ts))"
proof (induction ts arbitrary: st)
  case Nil
  then show ?case by simp
next
  case (Cons t ts)
  have m: "min_processing_time (update_stats st t) = min (min_processing_time st) t"
    using Cons.prems by (simp add: min_update min_def)
  have nz: "min_processing_time (update_stats st t) \<noteq> 0"
    using Cons.prems m by (simp add: min_def)
  have "min_processing_time (foldl update_stats st (t # ts))
      = Min (set (min (min_processing_time st) t # ts))"
    using Cons.IH [OF nz] Cons.prems(2) m by simp
  also have "\<dots> = Min (set (min_processing_time st # t # ts))"
  proof (cases "ts = []")
    case True
    then show ?thesis by simp
  next
    case False
    then show ?thesis by (simp add: min.assoc)
  qed
  finally show ?case .
qed

text \<open>
  C9, as the code has it. An update increments \<open>tasks_completed\<close> by one, adds the
  time to \<open>total_processing_time\<close>, and makes \<open>max_processing_time\<close> the maximum of
  its old value and the time. After any samples, none of them exactly 0,
  \<open>min_processing_time\<close> is the minimum of the sentinel 1000.0 and the samples.
\<close>

theorem stats_update:
  "tasks_completed (update_stats st t) = tasks_completed st + 1 \<and>
   total_processing_time (update_stats st t) = total_processing_time st + t \<and>
   max_processing_time (update_stats st t) = max (max_processing_time st) t \<and>
   (0 \<notin> set ts \<longrightarrow>
      min_processing_time (foldl update_stats (initial_worker_stats i) ts)
        = Min (set (1000 # ts)))"
proof -
  have "min_processing_time (foldl update_stats (initial_worker_stats i) ts)
        = Min (set (1000 # ts))" if "0 \<notin> set ts"
    using min_run [of "initial_worker_stats i" ts] that
    by (simp add: initial_worker_stats_def)
  then show ?thesis by (simp add: update_stats_def Let_def max_def)
qed

theorem stats_update_witness:
  "(0::real) \<notin> set [3, 1, 2] \<and>
   tasks_completed (update_stats (initial_worker_stats 0) 3) = 1 \<and>
   total_processing_time (update_stats (initial_worker_stats 0) 3) = 3 \<and>
   max_processing_time (update_stats (initial_worker_stats 0) 3) = 3 \<and>
   min_processing_time (foldl update_stats (initial_worker_stats 0) [3, 1, 2]) = 1"
  using stats_update [of "initial_worker_stats 0" 3 "[3, 1, 2]" 0]
  by (simp add: initial_worker_stats_def)

text \<open>
  C9 as stated fails: a first sample of 2000 does not overwrite the sentinel, and the
  minimum recorded, 1000, is not the minimum of the samples seen.
\<close>

theorem stats_min_counterexample:
  "min_processing_time (foldl update_stats (initial_worker_stats 0) [2000]) = 1000 \<and>
   Min (set [2000 :: real]) = 2000"
  by (simp add: update_stats_def initial_worker_stats_def Let_def)

text \<open>
  The test \<open>min_processing_time == 0\<close> of line 296 also makes a sample of exactly 0
  be forgotten at the next sample.
\<close>

lemma stats_min_after_zero_sample:
  "min_processing_time (foldl update_stats (initial_worker_stats 0) [0, 5]) = 5"
  by (simp add: update_stats_def initial_worker_stats_def Let_def)

section \<open>How a worker finds its identity and uses it\<close>

text \<open>
  \<^verbatim>\<open>worker_thread\<close> (lines 248-315). The argument every worker gets from
  \<^verbatim>\<open>pthread_create\<close> (line 576) is the one \<^verbatim>\<open>AppContext\<close>; of it the table of
  thread handles, the table of statistics and the shared total matter here. A thread
  handle is a number. The worker takes \<^verbatim>\<open>stats_lock\<close>, reads \<^verbatim>\<open>worker_threads[i]\<close>
  for \<open>i = 0, 1, ...\<close> below \<^verbatim>\<open>MAX_THREADS\<close> until an entry equals
  \<^verbatim>\<open>pthread_self()\<close>, and releases the lock. \<open>find_thread_id tbl self i k\<close> is the
  loop at index \<open>i\<close> with \<open>k\<close> iterations left; it gives the reads made and the
  outcome. \<open>Not_found\<close> is \<open>thread_id == -1\<close>. A read past the end of the table (it
  has \<^verbatim>\<open>num_threads\<close> entries, line 455) is undefined behaviour: \<open>Out_of_bounds\<close>.
\<close>

definition MAX_THREADS :: nat where
  "MAX_THREADS = 32"

type_synonym pthread_t = nat

record AppContext =
  worker_stats :: "WorkerStats list"
  worker_threads :: "pthread_t list"
  total_tasks_completed :: int

datatype lookup_action = Lock_stats_lock | Read_worker_thread nat | Unlock_stats_lock

datatype lookup = Found nat | Not_found | Out_of_bounds nat

fun find_thread_id :: "pthread_t list \<Rightarrow> pthread_t \<Rightarrow> nat \<Rightarrow> nat \<Rightarrow> lookup_action list \<times> lookup" where
  "find_thread_id tbl self i 0 = ([], Not_found)"
| "find_thread_id tbl self i (Suc k) =
     (if length tbl \<le> i then ([Read_worker_thread i], Out_of_bounds i)
      else if tbl ! i = self then ([Read_worker_thread i], Found i)
      else (case find_thread_id tbl self (Suc i) k of
              (acts, r) \<Rightarrow> (Read_worker_thread i # acts, r)))"

definition worker_thread_id :: "AppContext \<Rightarrow> pthread_t \<Rightarrow> lookup_action list \<times> lookup" where
  "worker_thread_id ctx self =
     (case find_thread_id (worker_threads ctx) self 0 MAX_THREADS of
        (acts, r) \<Rightarrow> (Lock_stats_lock # acts @ [Unlock_stats_lock], r))"

text \<open>
  Lines 287-302: what the worker with identity \<open>worker_id\<close> (the variable
  \<^verbatim>\<open>thread_id\<close>) records after a task that
  took \<open>processing_time\<close>. The slot is \<^verbatim>\<open>ctx->worker_stats[thread_id]\<close>; an index past
  the table of statistics is undefined behaviour (\<open>None\<close>). \<open>process_tasks\<close> is the
  loop of lines 269-311 over the tasks the worker dequeues until it leaves the loop,
  given by the times measured for them (lines 276-284).
\<close>

definition record_task :: "AppContext \<Rightarrow> nat \<Rightarrow> real \<Rightarrow> AppContext option" where
  "record_task ctx worker_id processing_time =
     (if worker_id < length (worker_stats ctx)
      then Some (ctx\<lparr>worker_stats :=
                        (worker_stats ctx)
                          [worker_id := update_stats (worker_stats ctx ! worker_id) processing_time],
                      total_tasks_completed := total_tasks_completed ctx + 1\<rparr>)
      else None)"

fun process_tasks :: "AppContext \<Rightarrow> nat \<Rightarrow> real list \<Rightarrow> AppContext option" where
  "process_tasks ctx worker_id [] = Some ctx"
| "process_tasks ctx worker_id (t # ts) =
     (case record_task ctx worker_id t of
        None \<Rightarrow> None
      | Some ctx' \<Rightarrow> process_tasks ctx' worker_id ts)"

text \<open>
  The whole function: how it ends, and the context it leaves. Without an identity
  (lines 262-265) it returns before its loop; with one it works until it leaves the
  loop.
\<close>

datatype worker_exit = No_thread_id | Shut_down | Undefined_access

definition worker_thread :: "AppContext \<Rightarrow> pthread_t \<Rightarrow> real list \<Rightarrow> worker_exit \<times> AppContext" where
  "worker_thread ctx self durations =
     (case snd (worker_thread_id ctx self) of
        Not_found \<Rightarrow> (No_thread_id, ctx)
      | Out_of_bounds i \<Rightarrow> (Undefined_access, ctx)
      | Found i \<Rightarrow>
          (case process_tasks ctx i durations of
             None \<Rightarrow> (Undefined_access, ctx)
           | Some ctx' \<Rightarrow> (Shut_down, ctx')))"

lemma find_thread_id_Found:
  "snd (find_thread_id tbl self i k) = Found m \<longleftrightarrow>
     i \<le> m \<and> m < i + k \<and> m < length tbl \<and> tbl ! m = self \<and>
     (\<forall>j. i \<le> j \<and> j < m \<longrightarrow> tbl ! j \<noteq> self)"
proof (induction k arbitrary: i)
  case 0
  then show ?case by simp
next
  case (Suc k)
  show ?case
  proof (cases "length tbl \<le> i")
    case True
    then show ?thesis by auto
  next
    case False
    show ?thesis
    proof (cases "tbl ! i = self")
      case True
      have "m = i" if "i \<le> m" "\<forall>j. i \<le> j \<and> j < m \<longrightarrow> tbl ! j \<noteq> self"
        using that True by (metis le_neq_implies_less order_refl)
      then show ?thesis using True False by auto
    next
      case ne: False
      have "snd (find_thread_id tbl self i (Suc k)) = snd (find_thread_id tbl self (Suc i) k)"
        using False ne by (simp split: prod.splits)
      moreover have "(Suc i \<le> m \<and> m < Suc i + k \<and> m < length tbl \<and> tbl ! m = self \<and>
            (\<forall>j. Suc i \<le> j \<and> j < m \<longrightarrow> tbl ! j \<noteq> self))
        \<longleftrightarrow> (i \<le> m \<and> m < i + Suc k \<and> m < length tbl \<and> tbl ! m = self \<and>
            (\<forall>j. i \<le> j \<and> j < m \<longrightarrow> tbl ! j \<noteq> self))"
        using ne by (metis Suc_leD Suc_leI add_Suc_right add_Suc_shift le_neq_implies_less)
      ultimately show ?thesis using Suc.IH [of "Suc i"] by simp
    qed
  qed
qed

lemma find_thread_id_reads:
  "snd (find_thread_id tbl self i k) = Found m \<Longrightarrow>
   fst (find_thread_id tbl self i k) = map Read_worker_thread [i..<Suc m]"
proof (induction k arbitrary: i)
  case 0
  then show ?case by simp
next
  case (Suc k)
  show ?case
  proof (cases "length tbl \<le> i \<or> tbl ! i = self")
    case True
    then show ?thesis using Suc.prems by (auto split: if_splits)
  next
    case False
    then have s: "snd (find_thread_id tbl self (Suc i) k) = Found m"
      and f: "fst (find_thread_id tbl self i (Suc k))
              = Read_worker_thread i # fst (find_thread_id tbl self (Suc i) k)"
      using Suc.prems by (auto split: prod.splits)
    have "Suc i \<le> m" using s by (simp add: find_thread_id_Found)
    then have "[i..<Suc m] = i # [Suc i..<Suc m]" by (simp add: upt_conv_Cons)
    then show ?thesis using Suc.IH [OF s] f by simp
  qed
qed

lemma find_thread_id_Not_found:
  "snd (find_thread_id tbl self i k) = Not_found \<longleftrightarrow>
     (0 < k \<longrightarrow> i + k \<le> length tbl) \<and> (\<forall>j. i \<le> j \<and> j < i + k \<longrightarrow> tbl ! j \<noteq> self)"
proof (induction k arbitrary: i)
  case 0
  then show ?case by simp
next
  case (Suc k)
  show ?case
  proof (cases "length tbl \<le> i")
    case True
    then show ?thesis by auto
  next
    case False
    show ?thesis
    proof (cases "tbl ! i = self")
      case True
      then show ?thesis using False by auto
    next
      case ne: False
      have "snd (find_thread_id tbl self i (Suc k)) = snd (find_thread_id tbl self (Suc i) k)"
        using False ne by (simp split: prod.splits)
      moreover have "(\<forall>j. i \<le> j \<and> j < i + Suc k \<longrightarrow> tbl ! j \<noteq> self)
          \<longleftrightarrow> (\<forall>j. Suc i \<le> j \<and> j < Suc i + k \<longrightarrow> tbl ! j \<noteq> self)"
        using ne by (metis Suc_leD Suc_leI add_Suc_right add_Suc_shift le_neq_implies_less)
      ultimately show ?thesis using Suc.IH [of "Suc i"] False by auto
    qed
  qed
qed

lemma find_thread_id_all_reads:
  "snd (find_thread_id tbl self i k) = Not_found \<Longrightarrow>
   fst (find_thread_id tbl self i k) = map Read_worker_thread [i..<i + k]"
proof (induction k arbitrary: i)
  case 0
  then show ?case by simp
next
  case (Suc k)
  have c: "\<not> length tbl \<le> i" "tbl ! i \<noteq> self"
    using Suc.prems by (auto split: if_splits)
  then have s: "snd (find_thread_id tbl self (Suc i) k) = Not_found"
    and f: "fst (find_thread_id tbl self i (Suc k))
            = Read_worker_thread i # fst (find_thread_id tbl self (Suc i) k)"
    using Suc.prems by (auto split: prod.splits)
  have "[i..<i + Suc k] = i # [Suc i..<Suc i + k]" by (simp add: upt_conv_Cons)
  then show ?case using Suc.IH [OF s] f by simp
qed

lemma process_tasks_slot:
  "i < length (worker_stats ctx) \<Longrightarrow>
   process_tasks ctx i ts
     = Some (ctx\<lparr>worker_stats :=
                    (worker_stats ctx)[i := foldl update_stats (worker_stats ctx ! i) ts],
                  total_tasks_completed := total_tasks_completed ctx + int (length ts)\<rparr>)"
proof (induction ts arbitrary: ctx)
  case Nil
  then show ?case by simp
next
  case (Cons t ts)
  define ctx1 where "ctx1 = ctx\<lparr>worker_stats :=
      (worker_stats ctx)[i := update_stats (worker_stats ctx ! i) t],
      total_tasks_completed := total_tasks_completed ctx + 1\<rparr>"
  have r: "record_task ctx i t = Some ctx1"
    using Cons.prems by (simp add: record_task_def ctx1_def)
  have l: "i < length (worker_stats ctx1)" using Cons.prems by (simp add: ctx1_def)
  have v: "worker_stats ctx1 ! i = update_stats (worker_stats ctx ! i) t"
    using Cons.prems by (simp add: ctx1_def)
  show ?case
    using Cons.IH [OF l] r v by (simp add: ctx1_def)
qed

text \<open>
  Two contexts: one with three workers, whose handles are 10, 20 and 30, and one whose
  table of handles has \<^verbatim>\<open>MAX_THREADS\<close> entries, none of them the handle 7.
\<close>

definition demo_ctx :: AppContext where
  "demo_ctx =
     \<lparr>worker_stats = map initial_worker_stats [0, 1, 2], worker_threads = [10, 20, 30],
      total_tasks_completed = 0\<rparr>"

definition demo_ctx_full :: AppContext where
  "demo_ctx_full =
     \<lparr>worker_stats = map initial_worker_stats [0, 1, 2], worker_threads = replicate 32 5,
      total_tasks_completed = 0\<rparr>"

text \<open>
  C7, as the code has it. A worker's identity is the index of the first entry of the
  shared table \<^verbatim>\<open>worker_threads\<close>, below \<^verbatim>\<open>MAX_THREADS\<close>, that equals its own
  thread handle; to find it the worker takes \<^verbatim>\<open>stats_lock\<close>, reads the entries from
  index 0 up to that one, and releases the lock. The index is its slot in the table of
  statistics: every task it completes is recorded in that slot, and in the shared
  total, and in no other slot. When the table has \<^verbatim>\<open>MAX_THREADS\<close> entries or more and
  none of the first \<^verbatim>\<open>MAX_THREADS\<close> is its handle, and only then, the worker has no
  identity: it has read all of them, and it returns without recording a task.
\<close>

theorem worker_identity_by_lookup:
  "(snd (worker_thread_id ctx self) = Found i \<longleftrightarrow>
      i < MAX_THREADS \<and> i < length (worker_threads ctx) \<and> worker_threads ctx ! i = self \<and>
      (\<forall>j<i. worker_threads ctx ! j \<noteq> self)) \<and>
   (snd (worker_thread_id ctx self) = Found i \<longrightarrow>
      fst (worker_thread_id ctx self)
        = Lock_stats_lock # map Read_worker_thread [0..<Suc i] @ [Unlock_stats_lock]) \<and>
   (snd (worker_thread_id ctx self) = Found i \<and> i < length (worker_stats ctx) \<longrightarrow>
      worker_thread ctx self durations
        = (Shut_down,
           ctx\<lparr>worker_stats :=
                  (worker_stats ctx)[i := foldl update_stats (worker_stats ctx ! i) durations],
                total_tasks_completed := total_tasks_completed ctx + int (length durations)\<rparr>)) \<and>
   (snd (worker_thread_id ctx self) = Not_found \<longleftrightarrow>
      MAX_THREADS \<le> length (worker_threads ctx) \<and>
      (\<forall>j<MAX_THREADS. worker_threads ctx ! j \<noteq> self)) \<and>
   (snd (worker_thread_id ctx self) = Not_found \<longrightarrow>
      fst (worker_thread_id ctx self)
        = Lock_stats_lock # map Read_worker_thread [0..<MAX_THREADS] @ [Unlock_stats_lock] \<and>
      worker_thread ctx self durations = (No_thread_id, ctx))"
proof -
  have s: "snd (worker_thread_id ctx self) = snd (find_thread_id (worker_threads ctx) self 0 MAX_THREADS)"
    and f: "fst (worker_thread_id ctx self)
        = Lock_stats_lock # fst (find_thread_id (worker_threads ctx) self 0 MAX_THREADS)
            @ [Unlock_stats_lock]"
    by (simp_all add: worker_thread_id_def split: prod.splits)
  have 1: "snd (worker_thread_id ctx self) = Found i \<longleftrightarrow>
      i < MAX_THREADS \<and> i < length (worker_threads ctx) \<and> worker_threads ctx ! i = self \<and>
      (\<forall>j<i. worker_threads ctx ! j \<noteq> self)"
    using find_thread_id_Found [of "worker_threads ctx" self 0 MAX_THREADS i]
    by (auto simp: s)
  have 2: "fst (worker_thread_id ctx self)
        = Lock_stats_lock # map Read_worker_thread [0..<Suc i] @ [Unlock_stats_lock]"
    if "snd (worker_thread_id ctx self) = Found i"
    using that find_thread_id_reads [of "worker_threads ctx" self 0 MAX_THREADS i]
    by (simp add: s f)
  have 3: "worker_thread ctx self durations
        = (Shut_down,
           ctx\<lparr>worker_stats :=
                  (worker_stats ctx)[i := foldl update_stats (worker_stats ctx ! i) durations],
                total_tasks_completed := total_tasks_completed ctx + int (length durations)\<rparr>)"
    if "snd (worker_thread_id ctx self) = Found i \<and> i < length (worker_stats ctx)"
    using that process_tasks_slot [of i ctx durations] by (simp add: worker_thread_def)
  have 4: "snd (worker_thread_id ctx self) = Not_found \<longleftrightarrow>
      MAX_THREADS \<le> length (worker_threads ctx) \<and>
      (\<forall>j<MAX_THREADS. worker_threads ctx ! j \<noteq> self)"
    using find_thread_id_Not_found [of "worker_threads ctx" self 0 MAX_THREADS]
    by (auto simp: s MAX_THREADS_def)
  have 5: "fst (worker_thread_id ctx self)
        = Lock_stats_lock # map Read_worker_thread [0..<MAX_THREADS] @ [Unlock_stats_lock] \<and>
      worker_thread ctx self durations = (No_thread_id, ctx)"
    if "snd (worker_thread_id ctx self) = Not_found"
    using that find_thread_id_all_reads [of "worker_threads ctx" self 0 MAX_THREADS]
    by (simp add: s f worker_thread_def)
  show ?thesis using 1 2 3 4 5 by blast
qed

theorem worker_identity_by_lookup_witness:
  "snd (worker_thread_id demo_ctx 20) = Found 1 \<and>
   (1::nat) < MAX_THREADS \<and> worker_threads demo_ctx ! 1 = 20 \<and>
   (1::nat) < length (worker_stats demo_ctx) \<and>
   fst (worker_thread_id demo_ctx 20)
     = [Lock_stats_lock, Read_worker_thread 0, Read_worker_thread 1, Unlock_stats_lock] \<and>
   worker_thread demo_ctx 20 [3, 1]
     = (Shut_down,
        demo_ctx\<lparr>worker_stats :=
                    [initial_worker_stats 0,
                     update_stats (update_stats (initial_worker_stats 1) 3) 1,
                     initial_worker_stats 2],
                  total_tasks_completed := 2\<rparr>) \<and>
   MAX_THREADS \<le> length (worker_threads demo_ctx_full) \<and>
   snd (worker_thread_id demo_ctx_full 7) = Not_found \<and>
   worker_thread demo_ctx_full 7 [3, 1] = (No_thread_id, demo_ctx_full)"
proof -
  note th = worker_identity_by_lookup
  have a: "snd (worker_thread_id demo_ctx 20) = Found 1"
    using th [of demo_ctx 20 1] by (simp add: demo_ctx_def MAX_THREADS_def less_Suc_eq)
  have l: "(1::nat) < length (worker_stats demo_ctx)" by (simp add: demo_ctx_def)
  have b: "fst (worker_thread_id demo_ctx 20)
     = [Lock_stats_lock, Read_worker_thread 0, Read_worker_thread 1, Unlock_stats_lock]"
    using th [of demo_ctx 20 1] a by (simp add: upt_conv_Cons)
  have c: "worker_thread demo_ctx 20 [3, 1]
     = (Shut_down,
        demo_ctx\<lparr>worker_stats :=
                    [initial_worker_stats 0,
                     update_stats (update_stats (initial_worker_stats 1) 3) 1,
                     initial_worker_stats 2],
                  total_tasks_completed := 2\<rparr>)"
    using th [of demo_ctx 20 1 "[3, 1]"] a l by (simp add: demo_ctx_def)
  have n: "MAX_THREADS \<le> length (worker_threads demo_ctx_full) \<and>
      (\<forall>j<MAX_THREADS. worker_threads demo_ctx_full ! j \<noteq> 7)"
    by (simp add: demo_ctx_full_def MAX_THREADS_def)
  have d: "snd (worker_thread_id demo_ctx_full 7) = Not_found"
    using th [of demo_ctx_full 7] n by blast
  have e: "worker_thread demo_ctx_full 7 [3, 1] = (No_thread_id, demo_ctx_full)"
    using th [of demo_ctx_full 7 _ "[3, 1]"] d by blast
  show ?thesis using a l b c n d e
    by (simp add: demo_ctx_def MAX_THREADS_def)
qed

text \<open>
  C7 as stated fails: two workers created with the same argument get the identities 1
  and 2 by looking their handles (20 and 30) up in the table, under the lock.
\<close>

theorem worker_identity_counterexample:
  "worker_thread_id demo_ctx 20
     = ([Lock_stats_lock, Read_worker_thread 0, Read_worker_thread 1, Unlock_stats_lock], Found 1) \<and>
   worker_thread_id demo_ctx 30
     = ([Lock_stats_lock, Read_worker_thread 0, Read_worker_thread 1, Read_worker_thread 2,
         Unlock_stats_lock], Found 2)"
  by (simp add: worker_thread_id_def demo_ctx_def MAX_THREADS_def eval_nat_numeral)

text \<open>
  A table shorter than \<^verbatim>\<open>MAX_THREADS\<close> that does not hold the worker's handle is
  read past its end: for the program's eight entries, at index 8.
\<close>

lemma short_table_read_past_end:
  "snd (worker_thread_id
          \<lparr>worker_stats = [], worker_threads = replicate 8 5, total_tasks_completed = 0\<rparr> 7)
     = Out_of_bounds 8"
  by (simp add: worker_thread_id_def MAX_THREADS_def eval_nat_numeral split: prod.splits)

end
